theory Spec2Isabelle
  imports Complex_Main
begin

section \<open>Python values and exceptions\<close>

text \<open>
  The exceptions the search engine of \<^verbatim>\<open>UCT.py\<close> can raise by itself: a division by
  zero, a \<^verbatim>\<open>math\<close> domain error or a \<^verbatim>\<open>list.remove\<close> of an absent element
  (\<open>ValueError\<close>), an index into an empty list, arithmetic on \<^verbatim>\<open>None\<close>, and a float
  power whose result is out of range (\<open>OverflowError\<close>).
  A computation that may raise returns \<open>error + 'a\<close>, with \<open>Inl\<close> for the exception.
\<close>

datatype error = ZeroDivisionError | ValueError | IndexError | TypeError | OverflowError

definition err_bind :: "error + 'a \<Rightarrow> ('a \<Rightarrow> error + 'b) \<Rightarrow> error + 'b" where
  "err_bind x f = (case x of Inl e \<Rightarrow> Inl e | Inr v \<Rightarrow> f v)"

subsection \<open>Floats\<close>

text \<open>
  Results of games, \<open>wins\<close> and scores are Python floats: IEEE 754 binary64 numbers.
  A finite float is a real number, and an operation on floats returns the exact
  result rounded to a float. The arithmetic is a parameter of the model: \<open>fround\<close>
  rounds the exact result of an operation, \<open>fhuge\<close> says that a rounded result is
  beyond the largest float. \<open>ieee\<close> is the arithmetic of the code: \<open>fl\<close> rounds to the
  nearest number with a 53-bit significand, ties to the even significand, with the
  subnormal numbers below \<^verbatim>\<open>2 ** -1022\<close>. \<open>exact\<close> is the arithmetic that does not round.

  Game results are finite floats. Infinities and NaN are not values of the model:
  a sum, product or quotient beyond the largest float, which Python turns into
  \<^verbatim>\<open>inf\<close>, is only reported where Python raises, in \<^verbatim>\<open>**\<close>; what is stated about the
  value of a computation is stated for results within the range. \<^verbatim>\<open>math.log\<close> and
  \<^verbatim>\<open>**\<close> are taken to round correctly, as \<^verbatim>\<open>+ - * /\<close> and \<^verbatim>\<open>math.sqrt\<close> do.
\<close>

record arith =
  fround :: "real \<Rightarrow> real"
  fhuge :: "real \<Rightarrow> bool"

definition rne :: "real \<Rightarrow> int" where
  "rne x =
     (let n = \<lfloor>x\<rfloor>; d = x - of_int n
      in if d < 1 / 2 then n else if 1 / 2 < d then n + 1 else if even n then n else n + 1)"

definition fl :: "real \<Rightarrow> real" where
  "fl x =
     (if x = 0 then 0
      else let e = max \<lfloor>log 2 \<bar>x\<bar>\<rfloor> (- 1022)
           in of_int (rne (x / 2 powr (of_int e - 52))) * 2 powr (of_int e - 52))"

definition ieee :: arith where
  "ieee = \<lparr>fround = fl, fhuge = (\<lambda>y. 2 ^ 1024 \<le> \<bar>y\<bar>)\<rparr>"

definition exact :: arith where
  "exact = \<lparr>fround = (\<lambda>x. x), fhuge = (\<lambda>y. False)\<rparr>"

text \<open>
  The conversion of a Python \<^verbatim>\<open>int\<close> to a float, which happens when an \<^verbatim>\<open>int\<close> meets
  a float in an operation. The divisors of the code are the \<^verbatim>\<open>int\<close> \<open>visits\<close>, and
  the argument of \<^verbatim>\<open>log\<close> is; \<^verbatim>\<open>x ** 2\<close> raises when the square is out of range.
\<close>

definition py_float :: "arith \<Rightarrow> int \<Rightarrow> real" where
  "py_float F n = fround F (of_int n)"

definition py_div :: "arith \<Rightarrow> real \<Rightarrow> nat \<Rightarrow> error + real" where
  "py_div F a n =
     (if n = 0 then Inl ZeroDivisionError else Inr (fround F (a / py_float F (int n))))"

definition py_log :: "arith \<Rightarrow> nat \<Rightarrow> error + real" where
  "py_log F n = (if n = 0 then Inl ValueError else Inr (fround F (ln (py_float F (int n)))))"

definition py_sqrt :: "arith \<Rightarrow> real \<Rightarrow> error + real" where
  "py_sqrt F x = (if x < 0 then Inl ValueError else Inr (fround F (sqrt x)))"

definition py_pow2 :: "arith \<Rightarrow> real \<Rightarrow> error + real" where
  "py_pow2 F x =
     (let y = fround F (x * x) in if fhuge F y then Inl OverflowError else Inr y)"

subsection \<open>Lists, counters and random choice\<close>

text \<open>
  \<^verbatim>\<open>sorted(xs, key = f)\<close> calls \<open>f\<close> once on every element, in list order, and then
  sorts by the keys with a stable sort; \<^verbatim>\<open>xs[-1]\<close> raises on the empty list.
\<close>

fun keyed :: "('a \<Rightarrow> error + 'k) \<Rightarrow> 'a list \<Rightarrow> error + ('k \<times> 'a) list" where
  "keyed f [] = Inr []"
| "keyed f (x # xs) =
     (case f x of
        Inl e \<Rightarrow> Inl e
      | Inr k \<Rightarrow> (case keyed f xs of Inl e \<Rightarrow> Inl e | Inr ks \<Rightarrow> Inr ((k, x) # ks)))"

definition py_sorted :: "('a \<Rightarrow> error + 'k::linorder) \<Rightarrow> 'a list \<Rightarrow> error + 'a list" where
  "py_sorted f xs =
     (case keyed f xs of Inl e \<Rightarrow> Inl e | Inr ks \<Rightarrow> Inr (map snd (sort_key fst ks)))"

definition py_last :: "'a list \<Rightarrow> error + 'a" where
  "py_last xs = (if xs = [] then Inl IndexError else Inr (last xs))"

text \<open>
  A \<^verbatim>\<open>collections.Counter\<close>: a dictionary in insertion order, as a list of pairs with
  distinct keys. Reading a missing key gives 0 and stores nothing; a store to a
  present key keeps its place, a store to a new key goes to the end.
\<close>

type_synonym 'k counter = "('k \<times> nat) list"

fun counter_get :: "'k counter \<Rightarrow> 'k \<Rightarrow> nat" where
  "counter_get [] k = 0"
| "counter_get ((k', v) # c) k = (if k' = k then v else counter_get c k)"

fun counter_set :: "'k counter \<Rightarrow> 'k \<Rightarrow> nat \<Rightarrow> 'k counter" where
  "counter_set [] k v = [(k, v)]"
| "counter_set ((k', v') # c) k v =
     (if k' = k then (k, v) # c else (k', v') # counter_set c k v)"

definition counter_incr :: "'k counter \<Rightarrow> 'k \<Rightarrow> 'k counter" where
  "counter_incr c k = counter_set c k (counter_get c k + 1)"

text \<open>
  \<^verbatim>\<open>random.choice\<close> draws from the ambient generator. The generator is made explicit
  as a sequence of draws \<open>rnd\<close> and the position \<open>i\<close> of the next draw; the element
  chosen from \<open>xs\<close> is the one at index \<open>rnd i mod length xs\<close>.
\<close>

type_synonym rng = "nat \<Rightarrow> nat"

definition random_choice :: "rng \<Rightarrow> nat \<Rightarrow> 'a list \<Rightarrow> error + 'a" where
  "random_choice rnd i xs =
     (if xs = [] then Inl IndexError else Inr (xs ! (rnd i mod length xs)))"


section \<open>The game state capability\<close>

text \<open>
  The concrete games (\<^verbatim>\<open>Nim\<close>, \<^verbatim>\<open>OXO\<close>, \<^verbatim>\<open>Othello\<close>, \<^verbatim>\<open>Connect4\<close>) are imported by
  \<^verbatim>\<open>UCT.py\<close> and are not part of it: the engine is parametric in the members of
  class \<^verbatim>\<open>GameState\<close>. \<open>DoMove\<close> mutates the state in place; here it returns the new
  state. \<open>GetMoves\<close> returns a fresh list on every call. \<^verbatim>\<open>Clone\<close> makes a copy that
  the moves of one iteration are played on, so that the root state is left alone;
  states are values here, and the copy of a state is the state.
\<close>

record ('s, 'm) game =
  DoMove :: "'s \<Rightarrow> 'm \<Rightarrow> 's"
  GetMoves :: "'s \<Rightarrow> 'm list"
  GetResult :: "'s \<Rightarrow> int \<Rightarrow> real"
  statePlayerJustMoved :: "'s \<Rightarrow> int"


section \<open>Nodes of the search tree\<close>

text \<open>
  Nodes are objects that refer to each other (\<open>parentNode\<close>, \<open>childNodes\<close>) and are
  mutated in place, so they live in a store: the list of all nodes created so far,
  a reference being the position of the node in that list. A new node is put at the
  end, and the references a node holds are positions of nodes created before the
  reference was stored. \<open>visits\<close> starts at 0 and is only ever incremented, hence a
  natural number.
\<close>

type_synonym ref = nat

record 'm Node =
  move :: "'m option"
  parentNode :: "ref option"
  childNodes :: "ref list"
  wins :: real
  visits :: nat
  untriedMoves :: "'m list"
  playerJustMoved :: int
  rollouts_counter :: "real counter"
  last_rollout_res :: "real option"

type_synonym 'm heap = "'m Node list"

definition Node_init :: "('s, 'm) game \<Rightarrow> 'm option \<Rightarrow> ref option \<Rightarrow> 's \<Rightarrow> 'm Node" where
  "Node_init g m parent state =
     \<lparr>move = m, parentNode = parent, childNodes = [], wins = 0, visits = 0,
      untriedMoves = GetMoves g state, playerJustMoved = statePlayerJustMoved g state,
      rollouts_counter = [], last_rollout_res = None\<rparr>"

text \<open>
  The key of \<^verbatim>\<open>UCTSelectChild\<close>, in Python's order of evaluation, every operation
  rounded.
\<close>

definition ucb_key ::
  "arith \<Rightarrow> ('m Node \<Rightarrow> error + real) \<Rightarrow> real \<Rightarrow> 'm Node \<Rightarrow> 'm Node \<Rightarrow> error + real" where
  "ucb_key F selection_function w self c =
     err_bind (py_div F (wins c) (visits c)) (\<lambda>exploit.
     err_bind (py_log F (visits self)) (\<lambda>l.
     err_bind (py_div F (fround F (py_float F 2 * l)) (visits c)) (\<lambda>q.
     err_bind (py_sqrt F q) (\<lambda>explore.
     err_bind (selection_function c) (\<lambda>hv.
       Inr (fround F (fround F (fround F (py_float F 1 - w) * fround F (exploit + explore))
                       + fround F (w * hv))))))))"

definition UCTSelectChild ::
  "arith \<Rightarrow> 'm heap \<Rightarrow> ref \<Rightarrow> ('m Node \<Rightarrow> error + real) \<Rightarrow> real \<Rightarrow> error + ref" where
  "UCTSelectChild F h self selection_function w =
     err_bind (py_sorted (\<lambda>c. ucb_key F selection_function w (h ! self) (h ! c))
                 (childNodes (h ! self))) py_last"

text \<open>
  \<^verbatim>\<open>AddChild\<close> creates the node first and then removes the move, so a failing
  \<^verbatim>\<open>remove\<close> leaves the new node in the store but the node \<open>self\<close> as it was. The
  store is returned in both cases.
\<close>

definition AddChild ::
  "('s, 'm) game \<Rightarrow> 'm heap \<Rightarrow> ref \<Rightarrow> 'm \<Rightarrow> 's \<Rightarrow> (error + ref) \<times> 'm heap" where
  "AddChild g h self m s =
     (let n = length h;
          h1 = h @ [Node_init g (Some m) (Some self) s]
      in if m \<notin> set (untriedMoves (h1 ! self)) then (Inl ValueError, h1)
         else (Inr n,
               h1[self := (h1 ! self)
                    \<lparr>untriedMoves := remove1 m (untriedMoves (h1 ! self)),
                     childNodes := childNodes (h1 ! self) @ [n]\<rparr>]))"

definition Update :: "arith \<Rightarrow> 'm heap \<Rightarrow> ref \<Rightarrow> real \<Rightarrow> 'm heap" where
  "Update F h self result =
     h[self := (h ! self)
         \<lparr>visits := visits (h ! self) + 1,
          wins := fround F (wins (h ! self) + result),
          rollouts_counter := counter_incr (rollouts_counter (h ! self)) result,
          last_rollout_res := Some result\<rparr>]"


section \<open>The heuristics\<close>

text \<open>
  \<^verbatim>\<open>sum\<close> adds the products from the left, starting from 0, and rounds every
  partial sum (CPython up to 3.11; later versions carry a correction term along,
  which changes the sum only where a partial sum is rounded). The loop of
  \<open>regular_std\<close> adds one rounded term per key, in the order of the counter.
\<close>

definition counter_mean :: "arith \<Rightarrow> real counter \<Rightarrow> nat \<Rightarrow> error + real" where
  "counter_mean F c n =
     py_div F (foldl (\<lambda>a x. fround F (a + x)) 0
                 (map (\<lambda>(k, v). fround F (k * py_float F (int v))) c)) n"

fun std_loop :: "arith \<Rightarrow> real \<Rightarrow> real counter \<Rightarrow> real \<Rightarrow> error + real" where
  "std_loop F mean [] std = Inr std"
| "std_loop F mean ((k, v) # c) std =
     err_bind (py_pow2 F (fround F (k - mean))) (\<lambda>sq.
       std_loop F mean c (fround F (std + fround F (py_float F (int v) * sq))))"

definition regular_std :: "arith \<Rightarrow> 'm Node \<Rightarrow> error + real" where
  "regular_std F node =
     (let c = rollouts_counter node; n = visits node in
      err_bind (counter_mean F c n) (\<lambda>mean.
      err_bind (std_loop F mean c 0) (\<lambda>std.
      err_bind (py_div F std n) (py_sqrt F))))"

definition last_res_std :: "arith \<Rightarrow> 'm Node \<Rightarrow> error + real" where
  "last_res_std F node =
     (let c = rollouts_counter node; n = visits node in
      err_bind (counter_mean F c n) (\<lambda>mean.
        case last_rollout_res node of
          None \<Rightarrow> Inl TypeError
        | Some r \<Rightarrow> Inr \<bar>fround F (mean - r)\<bar>))"


section \<open>The search\<close>

text \<open>
  The loops of one iteration. None of them has a bound in the code: selection follows
  child references, backpropagation follows parent references, and a rollout plays
  until the game says it is over. Not returning is the value \<open>None\<close>.
  The move of a selected node is \<^verbatim>\<open>None\<close> only for a node made without a move;
  \<open>DoMove\<close> is a capability on moves, so that case is a \<open>TypeError\<close>.
\<close>

partial_function (option) select_loop ::
  "arith \<Rightarrow> ('s, 'm) game \<Rightarrow> ('m Node \<Rightarrow> error + real) \<Rightarrow> real \<Rightarrow> 'm heap \<Rightarrow> ref \<Rightarrow> 's
     \<Rightarrow> (error + ref \<times> 's) option" where
  "select_loop F g selection_function w h node state =
     (if untriedMoves (h ! node) = [] \<and> childNodes (h ! node) \<noteq> [] then
        (case UCTSelectChild F h node selection_function w of
           Inl e \<Rightarrow> Some (Inl e)
         | Inr node' \<Rightarrow>
             (case move (h ! node') of
                None \<Rightarrow> Some (Inl TypeError)
              | Some m \<Rightarrow> select_loop F g selection_function w h node' (DoMove g state m)))
      else Some (Inr (node, state)))"

definition expand ::
  "('s, 'm) game \<Rightarrow> rng \<Rightarrow> 'm heap \<Rightarrow> ref \<Rightarrow> 's \<Rightarrow> nat
     \<Rightarrow> error + ('m heap \<times> ref \<times> 's \<times> nat)" where
  "expand g rnd h node state i =
     (if untriedMoves (h ! node) \<noteq> [] then
        (case random_choice rnd i (untriedMoves (h ! node)) of
           Inl e \<Rightarrow> Inl e
         | Inr m \<Rightarrow>
             (let state' = DoMove g state m in
              case AddChild g h node m state' of
                (Inl e, h') \<Rightarrow> Inl e
              | (Inr node', h') \<Rightarrow> Inr (h', node', state', Suc i)))
      else Inr (h, node, state, i))"

partial_function (option) rollout ::
  "('s, 'm) game \<Rightarrow> rng \<Rightarrow> 's \<Rightarrow> nat \<Rightarrow> (error + 's \<times> nat) option" where
  "rollout g rnd state i =
     (if GetMoves g state \<noteq> [] then
        (case random_choice rnd i (GetMoves g state) of
           Inl e \<Rightarrow> Some (Inl e)
         | Inr m \<Rightarrow> rollout g rnd (DoMove g state m) (Suc i))
      else Some (Inr (state, i)))"

partial_function (option) backpropagate ::
  "arith \<Rightarrow> ('s, 'm) game \<Rightarrow> 'm heap \<Rightarrow> ref option \<Rightarrow> 's \<Rightarrow> 'm heap option" where
  "backpropagate F g h node state =
     (case node of
        None \<Rightarrow> Some h
      | Some n \<Rightarrow>
          backpropagate F g (Update F h n (GetResult g state (playerJustMoved (h ! n))))
            (parentNode (h ! n)) state)"

declare select_loop.simps [code]
declare rollout.simps [code]
declare backpropagate.simps [code]

text \<open>
  One pass through the body of the \<^verbatim>\<open>for\<close> loop of \<^verbatim>\<open>UCT\<close>. The root node is the
  first node created, at reference 0.
\<close>

fun UCT_iteration ::
  "arith \<Rightarrow> ('s, 'm) game \<Rightarrow> 's \<Rightarrow> ('m Node \<Rightarrow> error + real) \<Rightarrow> real \<Rightarrow> rng
     \<Rightarrow> 'm heap \<times> nat \<Rightarrow> (error + 'm heap \<times> nat) option" where
  "UCT_iteration F g rootstate selected_std_function std_weight rnd (h, i) =
     (case select_loop F g selected_std_function std_weight h 0 rootstate of
        None \<Rightarrow> None
      | Some (Inl e) \<Rightarrow> Some (Inl e)
      | Some (Inr (node, state)) \<Rightarrow>
          (case expand g rnd h node state i of
             Inl e \<Rightarrow> Some (Inl e)
           | Inr (h1, node1, state1, i1) \<Rightarrow>
               (case rollout g rnd state1 i1 of
                  None \<Rightarrow> None
                | Some (Inl e) \<Rightarrow> Some (Inl e)
                | Some (Inr (state2, i2)) \<Rightarrow>
                    (case backpropagate F g h1 (Some node1) state2 of
                       None \<Rightarrow> None
                     | Some h2 \<Rightarrow> Some (Inr (h2, i2))))))"

fun UCT_loop ::
  "arith \<Rightarrow> ('s, 'm) game \<Rightarrow> 's \<Rightarrow> ('m Node \<Rightarrow> error + real) \<Rightarrow> real \<Rightarrow> rng \<Rightarrow> nat
     \<Rightarrow> 'm heap \<times> nat \<Rightarrow> (error + 'm heap \<times> nat) option" where
  "UCT_loop F g rootstate sel w rnd 0 hi = Some (Inr hi)"
| "UCT_loop F g rootstate sel w rnd (Suc k) hi =
     (case UCT_iteration F g rootstate sel w rnd hi of
        None \<Rightarrow> None
      | Some (Inl e) \<Rightarrow> Some (Inl e)
      | Some (Inr hi') \<Rightarrow> UCT_loop F g rootstate sel w rnd k hi')"

text \<open>
  The tree after \<open>itermax\<close> iterations (\<^verbatim>\<open>range\<close> of a negative number is empty), and
  the search itself, which returns the move of the last root child in the order of
  visits. Printing the tree has no effect on the result and is left out.
\<close>

definition UCT_tree ::
  "arith \<Rightarrow> ('s, 'm) game \<Rightarrow> 's \<Rightarrow> int \<Rightarrow> ('m Node \<Rightarrow> error + real) \<Rightarrow> real \<Rightarrow> rng
     \<Rightarrow> (error + 'm heap \<times> nat) option" where
  "UCT_tree F g rootstate itermax selected_std_function std_weight rnd =
     UCT_loop F g rootstate selected_std_function std_weight rnd (nat itermax)
       ([Node_init g None None rootstate], 0)"

definition most_visited :: "'m heap \<Rightarrow> error + 'm option" where
  "most_visited h =
     err_bind (py_sorted (\<lambda>c. Inr (visits (h ! c))) (childNodes (h ! 0))) (\<lambda>s.
     err_bind (py_last s) (\<lambda>c. Inr (move (h ! c))))"

definition UCT ::
  "arith \<Rightarrow> ('s, 'm) game \<Rightarrow> 's \<Rightarrow> int \<Rightarrow> ('m Node \<Rightarrow> error + real) \<Rightarrow> real \<Rightarrow> rng
     \<Rightarrow> (error + 'm option) option" where
  "UCT F g rootstate itermax selected_std_function std_weight rnd =
     (case UCT_tree F g rootstate itermax selected_std_function std_weight rnd of
        None \<Rightarrow> None
      | Some (Inl e) \<Rightarrow> Some (Inl e)
      | Some (Inr (h, i)) \<Rightarrow> Some (most_visited h))"



section \<open>The selection score and the heuristics as the specification states them\<close>


text \<open>
  The score as the code computes it, every operation rounded, for a child whose
  heuristic value is \<open>hv\<close>: \<open>float_ucb\<close> is the sum of the exploitation and the exploration
  term. \<open>score_finite\<close>: the factor \<open>1 - w\<close>, that sum, the two products and the
  score are in the range of the floats, so that no \<^verbatim>\<open>inf\<close> arises on the way.
\<close>

definition float_ucb :: "arith \<Rightarrow> 'm Node \<Rightarrow> 'm Node \<Rightarrow> real" where
  "float_ucb F p c =
     fround F
       (fround F (wins c / py_float F (int (visits c))) +
        fround F (sqrt (fround F
           (fround F (py_float F 2 * fround F (ln (py_float F (int (visits p)))))
              / py_float F (int (visits c))))))"

definition float_score :: "arith \<Rightarrow> real \<Rightarrow> 'm Node \<Rightarrow> 'm Node \<Rightarrow> real \<Rightarrow> real" where
  "float_score F w p c hv =
     fround F (fround F (fround F (py_float F 1 - w) * float_ucb F p c) + fround F (w * hv))"





text \<open>
  The same three as the code computes them: the sums run over the counter from the
  left, and every operation is rounded.
\<close>

definition float_mean :: "arith \<Rightarrow> real counter \<Rightarrow> nat \<Rightarrow> real" where
  "float_mean F c n =
     fround F (foldl (\<lambda>a x. fround F (a + x)) 0
                 (map (\<lambda>(k, v). fround F (k * py_float F (int v))) c) / py_float F (int n))"

definition float_regular_std :: "arith \<Rightarrow> real counter \<Rightarrow> nat \<Rightarrow> real" where
  "float_regular_std F c n =
     fround F (sqrt (fround F
       (foldl (\<lambda>std (k, v).
                 fround F (std + fround F (py_float F (int v) *
                   fround F (fround F (k - float_mean F c n) * fround F (k - float_mean F c n)))))
          0 c / py_float F (int n))))"

definition float_last_res_std :: "arith \<Rightarrow> real counter \<Rightarrow> nat \<Rightarrow> real \<Rightarrow> real" where
  "float_last_res_std F c n r = \<bar>fround F (float_mean F c n - r)\<bar>"





section \<open>A concrete game\<close>

text \<open>
  A one-heap subtraction game on which the search is run: a move takes one, two or
  three chips, the player who takes the last chip wins. \<open>nim_tree2\<close> and \<open>nim_tree3\<close>
  are the trees that two and three iterations build from two chips when every random
  draw is 0 and the heuristic is constantly 0 with weight 0.
\<close>

definition nim :: "(nat \<times> int, nat) game" where
  "nim = \<lparr>DoMove = (\<lambda>(chips, p) m. (chips - m, 3 - p)),
          GetMoves = (\<lambda>(chips, p). [1..<Suc (min 3 chips)]),
          GetResult = (\<lambda>(chips, p) pjm. if p = pjm then 1 else 0),
          statePlayerJustMoved = snd\<rparr>"

definition nim_tree2 :: "nat heap" where
  "nim_tree2 =
     [\<lparr>move = None, parentNode = None, childNodes = [1, 2], wins = 1, visits = 2,
       untriedMoves = [], playerJustMoved = 2, rollouts_counter = [(1, 1), (0, 1)],
       last_rollout_res = Some 0\<rparr>,
      \<lparr>move = Some 1, parentNode = Some 0, childNodes = [], wins = 0, visits = 1,
       untriedMoves = [1], playerJustMoved = 1, rollouts_counter = [(0, 1)],
       last_rollout_res = Some 0\<rparr>,
      \<lparr>move = Some 2, parentNode = Some 0, childNodes = [], wins = 1, visits = 1,
       untriedMoves = [], playerJustMoved = 1, rollouts_counter = [(1, 1)],
       last_rollout_res = Some 1\<rparr>]"

definition nim_tree3 :: "nat heap" where
  "nim_tree3 =
     [\<lparr>move = None, parentNode = None, childNodes = [1, 2], wins = 1, visits = 3,
       untriedMoves = [], playerJustMoved = 2, rollouts_counter = [(1, 1), (0, 2)],
       last_rollout_res = Some 0\<rparr>,
      \<lparr>move = Some 1, parentNode = Some 0, childNodes = [], wins = 0, visits = 1,
       untriedMoves = [1], playerJustMoved = 1, rollouts_counter = [(0, 1)],
       last_rollout_res = Some 0\<rparr>,
      \<lparr>move = Some 2, parentNode = Some 0, childNodes = [], wins = 2, visits = 2,
       untriedMoves = [], playerJustMoved = 1, rollouts_counter = [(1, 2)],
       last_rollout_res = Some 1\<rparr>]"


section \<open>Nodes whose statistics do not round to themselves\<close>

text \<open>
  \<open>tenth\<close> is the float written \<^verbatim>\<open>0.1\<close> and \<open>third\<close> the float that \<^verbatim>\<open>1 / 3\<close> evaluates to.
  \<open>drift_heap\<close> is a fresh root updated twice with \<open>tenth\<close>. \<open>skew_node\<close> has seen the
  result 0 twice and the result 1 four times. In \<open>round_tree\<close> the first child has
  won one of three playouts and the second has \<open>wins = third\<close> from one playout; in
  \<open>tie_tree\<close> the children have won five of six and one of three playouts, and
  \<open>tie_heuristic\<close> is \<open>1 / 2\<close> on the second of them and 0 elsewhere, and
  \<open>tie_select\<close> is the selection function that returns it.
\<close>

definition tenth :: real where
  "tenth = 3602879701896397 / 2 ^ 55"


definition drift_heap :: "nat heap" where
  "drift_heap = Update ieee (Update ieee [Node_init nim None None (2, 2)] 0 tenth) 0 tenth"







section \<open>Invariants of the search tree\<close>

text \<open>
  \<open>node_inv\<close>: the statistics of one node agree. \<open>tree_struct\<close>: the parent and child
  references of the store form a tree rooted at reference 0, every child created
  after its parent. \<open>visited\<close>: between two iterations every node but the root, and
  every node with a child, has been visited. \<open>sel_total\<close>: the heuristic is defined
  on visited nodes. \<open>finite_game\<close>: every move lowers a rank of the state, so every
  playout ends.
\<close>

definition node_inv :: "'m Node \<Rightarrow> bool" where
  "node_inv n \<longleftrightarrow>
     sum_list (map snd (rollouts_counter n)) = visits n \<and>
     distinct (map fst (rollouts_counter n)) \<and>
     (1 \<le> visits n \<longrightarrow> last_rollout_res n \<noteq> None)"

definition tree_struct :: "'m heap \<Rightarrow> bool" where
  "tree_struct h \<longleftrightarrow>
     h \<noteq> [] \<and> parentNode (h ! 0) = None \<and>
     (\<forall>r<length h.
        distinct (childNodes (h ! r)) \<and>
        (\<forall>c\<in>set (childNodes (h ! r)). c < length h \<and> parentNode (h ! c) = Some r) \<and>
        (\<forall>p. parentNode (h ! r) = Some p \<longrightarrow> p < r \<and> r \<in> set (childNodes (h ! p))) \<and>
        (0 < r \<longrightarrow> parentNode (h ! r) \<noteq> None \<and> move (h ! r) \<noteq> None))"

definition visited :: "'m heap \<Rightarrow> bool" where
  "visited h \<longleftrightarrow>
     (\<forall>r<length h.
        (0 < r \<longrightarrow> 1 \<le> visits (h ! r)) \<and>
        (childNodes (h ! r) \<noteq> [] \<longrightarrow> 1 \<le> visits (h ! r)) \<and>
        node_inv (h ! r))"

definition sel_total :: "('m Node \<Rightarrow> error + real) \<Rightarrow> bool" where
  "sel_total sel \<longleftrightarrow> (\<forall>n. 1 \<le> visits n \<and> node_inv n \<longrightarrow> (\<exists>v. sel n = Inr v))"

text \<open>
  What the searches below need of the arithmetic: rounding keeps a number that is at
  least 0 at least 0, and a number that is at least 1 at least 1.
\<close>

definition sign_safe :: "arith \<Rightarrow> bool" where
  "sign_safe F \<longleftrightarrow>
     (\<forall>x. 0 \<le> x \<longrightarrow> 0 \<le> fround F x) \<and> (\<forall>x. 1 \<le> x \<longrightarrow> 1 \<le> fround F x)"

definition finite_game :: "('s, 'm) game \<Rightarrow> ('s \<Rightarrow> nat) \<Rightarrow> bool" where
  "finite_game g rank \<longleftrightarrow>
     (\<forall>s. \<forall>m\<in>set (GetMoves g s). rank (DoMove g s m) < rank s)"

text \<open>
  \<open>anc par n r\<close>: \<open>r\<close> is on the path from \<open>n\<close> up to the root along the parent
  references \<open>par\<close>, the nodes that backpropagation from \<open>n\<close> updates.
  \<open>reachable h r\<close>: \<open>r\<close> is reached from the root along child references.
\<close>

definition parent_of :: "'m heap \<Rightarrow> ref \<Rightarrow> ref option" where
  "parent_of h r = parentNode (h ! r)"

inductive anc :: "(ref \<Rightarrow> ref option) \<Rightarrow> ref \<Rightarrow> ref \<Rightarrow> bool" for par where
  anc_self: "anc par n n"
| anc_step: "par n = Some p \<Longrightarrow> anc par p r \<Longrightarrow> anc par n r"

definition same_shape :: "'m heap \<Rightarrow> 'm heap \<Rightarrow> bool" where
  "same_shape h h' \<longleftrightarrow>
     length h' = length h \<and>
     (\<forall>r. move (h' ! r) = move (h ! r) \<and> parentNode (h' ! r) = parentNode (h ! r) \<and>
          childNodes (h' ! r) = childNodes (h ! r) \<and> untriedMoves (h' ! r) = untriedMoves (h ! r) \<and>
          playerJustMoved (h' ! r) = playerJustMoved (h ! r))"

code_pred anc .

inductive reachable :: "'m heap \<Rightarrow> ref \<Rightarrow> bool" for h where
  reachable_root: "reachable h 0"
| reachable_child: "reachable h r \<Longrightarrow> c \<in> set (childNodes (h ! r)) \<Longrightarrow> reachable h c"

code_pred reachable .

definition root_open :: "'m heap \<Rightarrow> bool" where
  "root_open h \<longleftrightarrow> untriedMoves (h ! 0) \<noteq> [] \<or> childNodes (h ! 0) \<noteq> []"

definition children_visits :: "'m heap \<Rightarrow> nat" where
  "children_visits h = sum_list (map (\<lambda>c. visits (h ! c)) (childNodes (h ! 0)))"


section \<open>Properties\<close>

subsection \<open>Rounding\<close>

lemma fl_zero [simp]: "fl 0 = 0"
  by (simp add: fl_def)

lemma fl_at:
  assumes "2 powr of_int e \<le> \<bar>x\<bar>" and "\<bar>x\<bar> < 2 powr (of_int e + 1)" and "- 1022 \<le> e"
  shows "fl x = of_int (rne (x / 2 powr (of_int e - 52))) * 2 powr (of_int e - 52)"
proof -
  have pos: "0 < \<bar>x\<bar>" using assms(1) by (smt (verit) powr_gt_zero)
  then have nz: "x \<noteq> 0" by auto
  have "of_int e \<le> log 2 \<bar>x\<bar>" using assms(1) pos by (simp add: le_log_iff)
  moreover have "log 2 \<bar>x\<bar> < of_int e + 1" using assms(2) pos by (simp add: log_less_iff)
  ultimately have "\<lfloor>log 2 \<bar>x\<bar>\<rfloor> = e" by linarith
  with assms(3) nz show ?thesis by (simp add: fl_def max_def)
qed

lemma two_powr_neg: "(2::real) powr (of_int (- int n)) = 1 / 2 ^ n"
  by (simp add: powr_minus powr_realpow divide_inverse)

lemma two_powr_pos: "(2::real) powr (of_int (int n)) = 2 ^ n"
  by (simp add: powr_realpow)

lemma two_powr_succ: "(2::real) powr (x + 1) = 2 * 2 powr x"
  by (simp add: powr_add)

text \<open>
  The rounding of a number between \<^verbatim>\<open>2 ** -k\<close> and \<^verbatim>\<open>2 ** (1 - k)\<close>, and of one
  between \<^verbatim>\<open>2 ** k\<close> and \<^verbatim>\<open>2 ** (k + 1)\<close>, in absolute value.
\<close>

lemma fl_below_one:
  assumes "1 \<le> \<bar>x\<bar> * 2 ^ k" and "\<bar>x\<bar> * 2 ^ k < 2" and "k \<le> 1022"
  shows "fl x = of_int (rne (x * 2 ^ (k + 52))) / 2 ^ (k + 52)"
proof -
  have e: "of_int (- int k) - (52::real) = of_int (- int (k + 52))" by simp
  have r: "(2::real) powr (of_int (- int k) - 52) = 1 / 2 ^ (k + 52)"
    by (simp only: e two_powr_neg)
  have a: "2 powr of_int (- int k) \<le> \<bar>x\<bar>"
    using assms(1) by (simp only: two_powr_neg) (simp add: field_simps)
  have b: "\<bar>x\<bar> < 2 powr (of_int (- int k) + 1)"
    using assms(2) by (simp only: two_powr_succ two_powr_neg) (simp add: field_simps)
  have c: "- 1022 \<le> - int k" using assms(3) by simp
  show ?thesis unfolding fl_at[OF a b c] r by simp
qed

lemma fl_above_one:
  assumes "2 ^ k \<le> \<bar>x\<bar>" and "\<bar>x\<bar> < 2 * 2 ^ k" and "k \<le> 52"
  shows "fl x = of_int (rne (x * 2 ^ (52 - k))) / 2 ^ (52 - k)"
proof -
  have e: "of_int (int k) - (52::real) = of_int (- int (52 - k))" using assms(3) by simp
  have r: "(2::real) powr (of_int (int k) - 52) = 1 / 2 ^ (52 - k)"
    by (simp only: e two_powr_neg)
  have a: "2 powr of_int (int k) \<le> \<bar>x\<bar>"
    using assms(1) by (simp only: two_powr_pos)
  have b: "\<bar>x\<bar> < 2 powr (of_int (int k) + 1)"
    using assms(2) by (simp only: two_powr_succ two_powr_pos)
  have c: "- 1022 \<le> int k" by simp
  show ?thesis unfolding fl_at[OF a b c] r by simp
qed

lemma rne_ge_floor: "\<lfloor>x\<rfloor> \<le> rne x"
  by (simp add: rne_def Let_def)

lemma fl_nonneg:
  assumes "0 \<le> x"
  shows "0 \<le> fl x"
proof (cases "x = 0")
  case True
  then show ?thesis by simp
next
  case False
  define u :: real where "u = 2 powr (of_int (max \<lfloor>log 2 \<bar>x\<bar>\<rfloor> (- 1022)) - 52)"
  have u: "0 < u" by (simp add: u_def)
  have "0 \<le> x / u" using assms u by simp
  then have "0 \<le> \<lfloor>x / u\<rfloor>" by simp
  with rne_ge_floor[of "x / u"] have "0 \<le> rne (x / u)" by linarith
  then have "0 \<le> of_int (rne (x / u)) * u" using u by simp
  moreover have "fl x = of_int (rne (x / u)) * u"
    using False by (simp add: fl_def Let_def u_def)
  ultimately show ?thesis by simp
qed

lemma fl_ge_one:
  assumes "1 \<le> x"
  shows "1 \<le> fl x"
proof -
  define e where "e = \<lfloor>log 2 \<bar>x\<bar>\<rfloor>"
  define u :: real where "u = 2 powr (of_int e - 52)"
  have x: "\<bar>x\<bar> = x" "x \<noteq> 0" "0 < x" using assms by simp_all
  have "0 \<le> log 2 x" using assms by simp
  then have e0: "0 \<le> e" by (simp add: e_def x)
  have "of_int e \<le> log 2 x" by (simp add: e_def x)
  then have ex: "2 powr of_int e \<le> x" using x(3) by (simp add: le_log_iff)
  have u: "0 < u" by (simp add: u_def)
  have eu: "2 powr of_int e = 2 ^ 52 * u"
  proof -
    have "(2::real) powr of_int e = 2 powr (52 + (of_int e - 52))" by simp
    also have "\<dots> = 2 powr 52 * 2 powr (of_int e - 52)" by (simp only: powr_add)
    also have "(2::real) powr 52 = 2 ^ 52" using powr_realpow[of 2 52] by simp
    finally show ?thesis by (simp only: u_def)
  qed
  have "2 ^ 52 * u \<le> x" using ex eu by simp
  then have "2 ^ 52 \<le> x / u" using u by (simp add: field_simps)
  then have "of_int (2 ^ 52) \<le> x / u" by simp
  then have "(2 ^ 52 :: int) \<le> \<lfloor>x / u\<rfloor>" by (simp only: le_floor_iff)
  with rne_ge_floor[of "x / u"] have "(2 ^ 52 :: int) \<le> rne (x / u)" by linarith
  then have "(2 ^ 52 :: real) \<le> of_int (rne (x / u))"
    by (metis of_int_le_iff of_int_numeral of_int_power)
  then have a: "2 ^ 52 * u \<le> of_int (rne (x / u)) * u" using u by simp
  have b: "1 \<le> (2::real) powr of_int e" using e0 by (simp add: ge_one_powr_ge_zero)
  have c: "fl x = of_int (rne (x / u)) * u"
  proof -
    have "max \<lfloor>log 2 \<bar>x\<bar>\<rfloor> (- 1022) = e" using e0 by (simp add: e_def max_def)
    then show ?thesis using x(2) by (simp add: fl_def Let_def u_def)
  qed
  from b eu have "1 \<le> 2 ^ 52 * u" by (simp only:)
  from this a have "1 \<le> of_int (rne (x / u)) * u" by (rule order_trans)
  with c show ?thesis by (simp only:)
qed

lemma sign_safe_ieee: "sign_safe ieee"
  by (simp add: sign_safe_def ieee_def fl_nonneg fl_ge_one)

lemma sign_safe_exact: "sign_safe exact"
  by (simp add: sign_safe_def exact_def)

lemma exact_simps [simp]:
  "fround exact x = x" "fhuge exact y = False" "py_float exact n = of_int n"
  by (simp_all add: exact_def py_float_def)

lemma ieee_simps [simp]:
  "fround ieee = fl" "fhuge ieee y \<longleftrightarrow> 2 ^ 1024 \<le> \<bar>y\<bar>"
  by (simp_all add: ieee_def)

lemma sign_safe_nonneg: "sign_safe F \<Longrightarrow> 0 \<le> x \<Longrightarrow> 0 \<le> fround F x"
  unfolding sign_safe_def by blast

lemma sign_safe_ge_one: "sign_safe F \<Longrightarrow> 1 \<le> x \<Longrightarrow> 1 \<le> fround F x"
  unfolding sign_safe_def by blast

lemma py_float_pos: "sign_safe F \<Longrightarrow> 1 \<le> n \<Longrightarrow> 1 \<le> py_float F n"
  by (simp add: py_float_def sign_safe_ge_one)

text \<open>Small integers and their halves are floats.\<close>

lemma fl_one [simp]: "fl 1 = 1"
  by (subst fl_above_one[where k = 0]) (simp_all add: rne_def)

lemma fl_two [simp]: "fl 2 = 2"
  by (subst fl_above_one[where k = 1]) (simp_all add: rne_def)

lemma fl_three [simp]: "fl 3 = 3"
  by (subst fl_above_one[where k = 1]) (simp_all add: rne_def)

lemma fl_four [simp]: "fl 4 = 4"
  by (subst fl_above_one[where k = 2]) (simp_all add: rne_def)

lemma fl_six [simp]: "fl 6 = 6"
  by (subst fl_above_one[where k = 2]) (simp_all add: rne_def)

lemma fl_half [simp]: "fl (1 / 2) = 1 / 2"
  by (subst fl_below_one[where k = 1]) (simp_all add: rne_def)

lemma fl_minus_half [simp]: "fl (- (1 / 2)) = - (1 / 2)"
  by (subst fl_below_one[where k = 1]) (simp_all add: rne_def)

lemma fl_quarter [simp]: "fl (1 / 4) = 1 / 4"
  by (subst fl_below_one[where k = 2]) (simp_all add: rne_def)

lemma py_float_ieee [simp]:
  "py_float ieee 1 = 1" "py_float ieee 2 = 2" "py_float ieee (int (Suc 0)) = 1"
  by (simp_all add: py_float_def)

subsection \<open>Sorting by a key and taking the last element\<close>

lemma last_filter_holds:
  assumes "xs \<noteq> []" and "P (last xs)"
  shows "last (filter P xs) = last xs"
proof -
  from assms(1) have "xs = butlast xs @ [last xs]" by simp
  then have "filter P xs = filter P (butlast xs) @ filter P [last xs]"
    by (metis filter_append)
  with assms(2) show ?thesis by simp
qed

lemma last_filter_index:
  "filter P xs \<noteq> [] \<Longrightarrow>
   \<exists>j<length xs. last (filter P xs) = xs ! j \<and> P (xs ! j) \<and> (\<forall>i<length xs. j < i \<longrightarrow> \<not> P (xs ! i))"
proof (induction xs rule: rev_induct)
  case Nil
  then show ?case by simp
next
  case (snoc x xs)
  show ?case
  proof (cases "P x")
    case True
    then have "last (filter P (xs @ [x])) = (xs @ [x]) ! length xs \<and> P ((xs @ [x]) ! length xs)"
      by simp
    then show ?thesis by (intro exI[of _ "length xs"]) auto
  next
    case False
    with snoc.prems have ne: "filter P xs \<noteq> []" by simp
    from snoc.IH[OF ne] obtain j where j: "j < length xs" "last (filter P xs) = xs ! j"
      "P (xs ! j)" "\<forall>i<length xs. j < i \<longrightarrow> \<not> P (xs ! i)" by blast
    have "\<forall>i<length (xs @ [x]). j < i \<longrightarrow> \<not> P ((xs @ [x]) ! i)"
      using j(4) False by (auto simp: nth_append less_Suc_eq)
    with j False show ?thesis
      by (intro exI[of _ j]) (auto simp: nth_append)
  qed
qed

lemma sort_key_last_index:
  fixes f :: "'a \<Rightarrow> 'k::linorder"
  assumes "xs \<noteq> []"
  shows "\<exists>j<length xs. last (sort_key f xs) = xs ! j \<and> (\<forall>i<length xs. f (xs ! i) \<le> f (xs ! j))
           \<and> (\<forall>i<length xs. j < i \<longrightarrow> f (xs ! i) < f (xs ! j))"
proof -
  let ?s = "sort_key f xs"
  let ?M = "f (last ?s)"
  let ?P = "\<lambda>y. f y = ?M"
  have ne: "?s \<noteq> []" using assms by (metis length_sort length_0_conv)
  have srt: "sorted (map f ?s)" by simp
  have le: "f x \<le> ?M" if "x \<in> set xs" for x
  proof -
    from that have "x \<in> set ?s" by simp
    then obtain i where i: "i < length ?s" "?s ! i = x" by (metis in_set_conv_nth)
    have "map f ?s ! i \<le> map f ?s ! (length ?s - 1)"
      using srt i(1) by (intro sorted_nth_mono) auto
    then show ?thesis using i ne by (simp add: last_conv_nth)
  qed
  have "last (filter ?P ?s) = last ?s" using ne by (rule last_filter_holds) simp
  moreover have "filter ?P ?s = filter ?P xs" by (rule sort_key_stable)
  ultimately have l: "last (filter ?P xs) = last ?s" by simp
  have "last ?s \<in> set xs" using ne by (metis last_in_set set_sort)
  then have "filter ?P xs \<noteq> []" by (auto simp: filter_empty_conv)
  from last_filter_index[OF this] obtain j where j: "j < length xs"
    "last (filter ?P xs) = xs ! j" "\<forall>i<length xs. j < i \<longrightarrow> \<not> ?P (xs ! i)" by blast
  have M: "f (xs ! j) = ?M" using j(2) l by simp
  have "\<forall>i<length xs. f (xs ! i) \<le> f (xs ! j)" using le M by simp
  moreover have "\<forall>i<length xs. j < i \<longrightarrow> f (xs ! i) < f (xs ! j)"
    using j(3) le M by (metis nth_mem order_le_less)
  ultimately show ?thesis using j(1,2) l by auto
qed

lemma keyed_total:
  "\<forall>x\<in>set xs. f x = Inr (k x) \<Longrightarrow> keyed f xs = Inr (map (\<lambda>x. (k x, x)) xs)"
  by (induction xs) auto

lemma py_sorted_last:
  fixes k :: "'a \<Rightarrow> 'k::linorder"
  assumes "xs \<noteq> []" and "\<forall>x\<in>set xs. f x = Inr (k x)"
  shows "\<exists>j<length xs. err_bind (py_sorted f xs) py_last = Inr (xs ! j)
           \<and> (\<forall>i<length xs. k (xs ! i) \<le> k (xs ! j))
           \<and> (\<forall>i<length xs. j < i \<longrightarrow> k (xs ! i) < k (xs ! j))"
proof -
  let ?ks = "map (\<lambda>x. (k x, x)) xs"
  have ne: "?ks \<noteq> []" using assms(1) by simp
  from sort_key_last_index[OF ne, of fst] obtain j where j: "j < length xs"
    "last (sort_key fst ?ks) = ?ks ! j" "\<forall>i<length xs. k (xs ! i) \<le> k (xs ! j)"
    "\<forall>i<length xs. j < i \<longrightarrow> k (xs ! i) < k (xs ! j)"
    by auto
  have sne: "sort_key fst ?ks \<noteq> []" using ne by (metis length_sort length_0_conv)
  have "err_bind (py_sorted f xs) py_last = Inr (snd (last (sort_key fst ?ks)))"
    using sne by (simp add: py_sorted_def keyed_total[OF assms(2)] err_bind_def py_last_def last_map)
  with j show ?thesis by auto
qed

subsection \<open>The concrete game\<close>

lemma nim_simps [simp]:
  "DoMove nim (c, p) m = (c - m, 3 - p)"
  "GetMoves nim (c, p) = [1..<Suc (min 3 c)]"
  "GetResult nim (c, p) q = (if p = q then 1 else 0)"
  "statePlayerJustMoved nim (c, p) = p"
  by (simp_all add: nim_def)

lemma nim_run2: "UCT_tree ieee nim (2, 2) 2 (\<lambda>c. Inr 0) 0 (\<lambda>i. 0) = Some (Inr (nim_tree2, 3))"
  by (simp add: UCT_tree_def numeral_2_eq_2 select_loop.simps rollout.simps
      backpropagate.simps expand_def Node_init_def random_choice_def AddChild_def Update_def
      Let_def upt_rec counter_incr_def nim_tree2_def)

lemma nim_run3: "UCT_tree exact nim (2, 2) 3 (\<lambda>c. Inr 0) 0 (\<lambda>i. 0) = Some (Inr (nim_tree3, 3))"
  by (simp add: UCT_tree_def numeral_3_eq_3 select_loop.simps rollout.simps
      backpropagate.simps expand_def Node_init_def random_choice_def AddChild_def Update_def
      Let_def upt_rec counter_incr_def nim_tree3_def UCTSelectChild_def py_sorted_def
      py_last_def err_bind_def ucb_key_def py_div_def py_log_def py_sqrt_def)

lemma nim_uct3: "UCT exact nim (2, 2) 3 (\<lambda>c. Inr 0) 0 (\<lambda>i. 0) = Some (Inr (Some 2))"
  by (simp add: UCT_def nim_run3 most_visited_def py_sorted_def py_last_def err_bind_def
      nim_tree3_def)

lemma finite_game_nim: "finite_game nim fst"
  by (auto simp: finite_game_def)

lemma sel_total_default: "sel_total (\<lambda>c. Inr 0)"
  by (simp add: sel_total_def)

subsection \<open>Selecting a child\<close>

lemma ucb_key_score:
  assumes "sign_safe F" "0 < visits p" "0 < visits c" "sel c = Inr hv"
  shows "ucb_key F sel w p c = Inr (float_score F w p c hv)"
proof -
  let ?l = "fround F (ln (py_float F (int (visits p))))"
  let ?d = "py_float F (int (visits c))"
  let ?q = "fround F (fround F (py_float F 2 * ?l) / ?d)"
  have "1 \<le> py_float F (int (visits p))" using assms(1,2) by (simp add: py_float_pos)
  then have "0 \<le> ln (py_float F (int (visits p)))" by simp
  then have l: "0 \<le> ?l" using assms(1) by (simp add: sign_safe_nonneg)
  have "1 \<le> py_float F 2" using assms(1) by (simp add: py_float_pos)
  then have "0 \<le> py_float F 2 * ?l" using l by simp
  then have n: "0 \<le> fround F (py_float F 2 * ?l)" using assms(1) by (simp add: sign_safe_nonneg)
  have "1 \<le> ?d" using assms(1,3) by (simp add: py_float_pos)
  then have "0 \<le> fround F (py_float F 2 * ?l) / ?d" using n by simp
  then have "0 \<le> ?q" using assms(1) by (simp add: sign_safe_nonneg)
  then have "\<not> ?q < 0" by linarith
  then show ?thesis using assms(2,3,4)
    by (simp add: ucb_key_def err_bind_def py_div_def py_log_def py_sqrt_def float_score_def
        float_ucb_def)
qed








subsection \<open>Counters\<close>

lemma counter_get_set:
  "counter_get (counter_set c k v) k' = (if k' = k then v else counter_get c k')"
  by (induction c) auto

lemma counter_get_incr:
  "counter_get (counter_incr c k) k' = (if k' = k then counter_get c k + 1 else counter_get c k')"
  by (simp add: counter_incr_def counter_get_set)

lemma counter_get_absent: "k \<notin> fst ` set c \<Longrightarrow> counter_get c k = 0"
  by (induction c) auto

lemma keys_counter_set: "fst ` set (counter_set c k v) = insert k (fst ` set c)"
proof (induction c)
  case Nil
  then show ?case by simp
next
  case (Cons a c)
  obtain k' v' where a: "a = (k', v')" by (cases a)
  show ?case
  proof (cases "k' = k")
    case True
    then show ?thesis using a by simp
  next
    case False
    then show ?thesis using a Cons.IH by (simp add: insert_commute)
  qed
qed

lemma distinct_counter_set:
  "distinct (map fst c) \<Longrightarrow> distinct (map fst (counter_set c k v))"
proof (induction c)
  case Nil
  then show ?case by simp
next
  case (Cons a c)
  obtain k' v' where a: "a = (k', v')" by (cases a)
  have "k' \<notin> fst ` set (counter_set c k v)" if "k' \<noteq> k"
    using that Cons.prems a by (simp add: keys_counter_set)
  then have "k' \<notin> set (map fst (counter_set c k v))" if "k' \<noteq> k"
    using that by simp
  with Cons a show ?case by (cases "k' = k") simp_all
qed

lemma sum_counter_set:
  "sum_list (map snd (counter_set c k v)) + counter_get c k = sum_list (map snd c) + v"
  by (induction c) auto

lemma sum_counter_incr:
  "sum_list (map snd (counter_incr c k)) = sum_list (map snd c) + 1"
  using sum_counter_set[of c k "counter_get c k + 1"] by (simp add: counter_incr_def)


lemma fold_items:
  fixes g :: "'k \<Rightarrow> nat \<Rightarrow> real"
  shows "fold (\<lambda>(k, v) std. std + g k v) c a = a + sum_list (map (\<lambda>(k, v). g k v) c)"
  by (induction c arbitrary: a) (auto simp: algebra_simps)

subsection \<open>The heuristics\<close>

lemma counter_mean_value: "1 \<le> n \<Longrightarrow> counter_mean F c n = Inr (float_mean F c n)"
  by (simp add: counter_mean_def py_div_def float_mean_def)







lemma py_pow2_cases:
  "py_pow2 F x = Inl OverflowError \<or> py_pow2 F x = Inr (fround F (x * x))"
  by (simp add: py_pow2_def Let_def)

lemma std_loop_value:
  "std_loop F mean c a = Inl OverflowError \<or>
   std_loop F mean c a =
     Inr (foldl (\<lambda>std (k, v).
                   fround F (std + fround F (py_float F (int v) *
                     fround F (fround F (k - mean) * fround F (k - mean))))) a c)"
proof (induction c arbitrary: a)
  case Nil
  then show ?case by simp
next
  case (Cons kv c)
  obtain k v where kv: "kv = (k, v)" by (cases kv)
  let ?x = "fround F (k - mean)"
  from py_pow2_cases[of F ?x] show ?case
  proof
    assume "py_pow2 F ?x = Inl OverflowError"
    then show ?thesis by (simp add: kv err_bind_def)
  next
    assume sq: "py_pow2 F ?x = Inr (fround F (?x * ?x))"
    from Cons.IH[of "fround F (a + fround F (py_float F (int v) * fround F (?x * ?x)))"]
    show ?thesis by (simp add: kv err_bind_def sq)
  qed
qed

lemma std_loop_result:
  assumes "sign_safe F"
  shows "0 \<le> a \<Longrightarrow>
         std_loop F mean c a = Inl OverflowError \<or> (\<exists>s. std_loop F mean c a = Inr s \<and> 0 \<le> s)"
proof (induction c arbitrary: a)
  case Nil
  then show ?case by simp
next
  case (Cons kv c)
  obtain k v where kv: "kv = (k, v)" by (cases kv)
  let ?x = "fround F (k - mean)"
  from py_pow2_cases[of F ?x] show ?case
  proof
    assume "py_pow2 F ?x = Inl OverflowError"
    then show ?thesis by (simp add: kv err_bind_def)
  next
    assume sq: "py_pow2 F ?x = Inr (fround F (?x * ?x))"
    have "0 \<le> fround F (?x * ?x)" using assms by (simp add: sign_safe_nonneg)
    moreover have "0 \<le> py_float F (int v)" using assms by (simp add: py_float_def sign_safe_nonneg)
    ultimately have "0 \<le> fround F (py_float F (int v) * fround F (?x * ?x))"
      using assms by (simp add: sign_safe_nonneg)
    with Cons.prems have "0 \<le> fround F (a + fround F (py_float F (int v) * fround F (?x * ?x)))"
      using assms by (simp add: sign_safe_nonneg)
    from Cons.IH[OF this] show ?thesis by (simp add: kv err_bind_def sq)
  qed
qed

lemma std_loop_total:
  "\<forall>y. \<not> fhuge F y \<Longrightarrow> \<exists>s. std_loop F mean c a = Inr s"
  by (induction c arbitrary: a) (auto simp: err_bind_def py_pow2_def Let_def)

lemma regular_std_result:
  assumes "sign_safe F" and "1 \<le> visits node"
  shows "regular_std F node = Inl OverflowError \<or>
         (regular_std F node = Inr (float_regular_std F (rollouts_counter node) (visits node)) \<and>
          0 \<le> float_regular_std F (rollouts_counter node) (visits node))"
proof -
  let ?c = "rollouts_counter node" and ?n = "visits node"
  define m where "m = float_mean F ?c ?n"
  have m: "counter_mean F ?c ?n = Inr m" unfolding m_def by (rule counter_mean_value[OF assms(2)])
  have "0 \<le> (0::real)" by simp
  from std_loop_result[OF assms(1) this, of m ?c] show ?thesis
  proof
    assume "std_loop F m ?c 0 = Inl OverflowError"
    then show ?thesis by (simp add: regular_std_def Let_def err_bind_def m)
  next
    assume "\<exists>s. std_loop F m ?c 0 = Inr s \<and> 0 \<le> s"
    then obtain s where s: "std_loop F m ?c 0 = Inr s" "0 \<le> s" by blast
    from std_loop_value[of F m ?c 0] s(1) have sv:
      "s = foldl (\<lambda>std (k, v).
                   fround F (std + fround F (py_float F (int v) *
                     fround F (fround F (k - m) * fround F (k - m))))) 0 ?c"
      by simp
    have "1 \<le> py_float F (int ?n)" using assms by (simp add: py_float_pos)
    then have "0 \<le> s / py_float F (int ?n)" using s(2) by simp
    then have q: "0 \<le> fround F (s / py_float F (int ?n))"
      using assms(1) by (simp add: sign_safe_nonneg)
    then have nq: "\<not> fround F (s / py_float F (int ?n)) < 0" by linarith
    have "regular_std F node = Inr (fround F (sqrt (fround F (s / py_float F (int ?n)))))"
      using assms(2) nq by (simp add: regular_std_def Let_def err_bind_def m s(1) py_div_def py_sqrt_def)
    moreover have "0 \<le> fround F (sqrt (fround F (s / py_float F (int ?n))))"
      using assms(1) q by (simp add: sign_safe_nonneg)
    moreover have "fround F (sqrt (fround F (s / py_float F (int ?n)))) = float_regular_std F ?c ?n"
      unfolding float_regular_std_def sv m_def ..
    ultimately show ?thesis by simp
  qed
qed

lemma regular_std_total:
  assumes "sign_safe F" and "\<forall>y. \<not> fhuge F y" and "1 \<le> visits node"
  shows "\<exists>v. regular_std F node = Inr v"
proof -
  let ?c = "rollouts_counter node" and ?n = "visits node"
  from counter_mean_value[OF assms(3)] obtain m where m: "counter_mean F ?c ?n = Inr m" by blast
  from std_loop_total[OF assms(2), of m ?c 0] obtain s where s: "std_loop F m ?c 0 = Inr s" by blast
  have "regular_std F node \<noteq> Inl OverflowError"
    using assms(3) by (simp add: regular_std_def Let_def err_bind_def m s py_div_def py_sqrt_def)
  with regular_std_result[OF assms(1,3)] show ?thesis by blast
qed

lemma last_res_std_result:
  assumes "1 \<le> visits node" and "last_rollout_res node = Some r"
  shows "last_res_std F node
           = Inr (float_last_res_std F (rollouts_counter node) (visits node) r)"
  using counter_mean_value[OF assms(1), of F "rollouts_counter node"] assms(2)
  by (simp add: last_res_std_def Let_def err_bind_def float_last_res_std_def)








subsection \<open>Updating a node\<close>

lemma tenth_float: "fl tenth = tenth"
  unfolding tenth_def by (subst fl_below_one[where k = 4]) (simp_all add: rne_def)

lemma two_tenths_float: "fl (2 * tenth) = 2 * tenth"
  unfolding tenth_def by (subst fl_below_one[where k = 3]) (simp_all add: rne_def)

lemma three_tenths_rounds: "fl (3 * tenth) = 5404319552844596 / 2 ^ 54"
  unfolding tenth_def by (subst fl_below_one[where k = 2]) (simp_all add: rne_def)

text \<open>
  Claim C7, as the code has it. \<open>Update\<close> with result \<open>r\<close> adds one to \<open>visits\<close>, sets
  \<open>wins\<close> to the rounded sum of \<open>wins\<close> and \<open>r\<close> when that is in the range of the
  floats, adds one to the count of \<open>r\<close> in \<open>rollouts_counter\<close>, leaving the other counts
  as they were, and sets \<open>last_rollout_res\<close> to \<open>r\<close>. When the sum of \<open>wins\<close> and \<open>r\<close> is
  a float, \<open>wins\<close> has increased by \<open>r\<close>.
\<close>

theorem Update_effect:
  assumes "self < length h"
  shows "visits (Update F h self r ! self) = visits (h ! self) + 1 \<and>
         (\<not> fhuge F (fround F (wins (h ! self) + r)) \<longrightarrow>
            wins (Update F h self r ! self) = fround F (wins (h ! self) + r)) \<and>
         (\<not> fhuge F (wins (h ! self) + r) \<and> fround F (wins (h ! self) + r) = wins (h ! self) + r \<longrightarrow>
            wins (Update F h self r ! self) = wins (h ! self) + r) \<and>
         counter_get (rollouts_counter (Update F h self r ! self)) r
           = counter_get (rollouts_counter (h ! self)) r + 1 \<and>
         (\<forall>k. k \<noteq> r \<longrightarrow> counter_get (rollouts_counter (Update F h self r ! self)) k
           = counter_get (rollouts_counter (h ! self)) k) \<and>
         last_rollout_res (Update F h self r ! self) = Some r"
  using assms by (simp add: Update_def counter_get_incr)

theorem Update_effect_witness:
  "(0::nat) < length nim_tree2 \<and> \<not> fhuge ieee (wins (nim_tree2 ! 0) + 1) \<and>
   fround ieee (wins (nim_tree2 ! 0) + 1) = wins (nim_tree2 ! 0) + 1 \<and>
   visits (Update ieee nim_tree2 0 1 ! 0) = 3 \<and> wins (Update ieee nim_tree2 0 1 ! 0) = 2 \<and>
   counter_get (rollouts_counter (Update ieee nim_tree2 0 1 ! 0)) 1 = 2 \<and>
   counter_get (rollouts_counter (Update ieee nim_tree2 0 1 ! 0)) 0 = 1 \<and>
   last_rollout_res (Update ieee nim_tree2 0 1 ! 0) = Some 1"
  using Update_effect [of 0 nim_tree2 ieee 1] by (simp add: nim_tree2_def)

text \<open>
  Claim C7, as the specification has it, fails in floating point. After two updates
  with \<open>tenth\<close> the \<open>wins\<close> of a fresh node are \<open>2 * tenth\<close>; the third update with
  \<open>tenth\<close> sets them to a float that is not \<open>2 * tenth + tenth\<close>.
\<close>

theorem Update_wins_not_sum:
  "(0::nat) < length drift_heap \<and> fl tenth = tenth \<and>
   wins (drift_heap ! 0) = 2 * tenth \<and>
   wins (Update ieee drift_heap 0 tenth ! 0) = 5404319552844596 / 2 ^ 54 \<and>
   wins (Update ieee drift_heap 0 tenth ! 0) \<noteq> wins (drift_heap ! 0) + tenth"
proof -
  have w: "wins (drift_heap ! 0) = 2 * tenth"
    by (simp add: drift_heap_def Update_def Node_init_def tenth_float two_tenths_float)
  have l: "(0::nat) < length drift_heap" by (simp add: drift_heap_def Update_def)
  have u: "wins (Update ieee drift_heap 0 tenth ! 0) = 5404319552844596 / 2 ^ 54"
    using l w by (simp add: Update_def three_tenths_rounds)
  have "(5404319552844596 / 2 ^ 54 :: real) \<noteq> 2 * tenth + tenth" by (simp add: tenth_def)
  with w l u tenth_float show ?thesis by simp
qed

subsection \<open>Adding a child\<close>

text \<open>
  Claim C6. When \<open>m\<close> is among the untried moves of the node, \<open>AddChild m s\<close> removes
  \<open>m\<close> from them (its first occurrence, as \<^verbatim>\<open>list.remove\<close> does), appends to the
  children a new node with move \<open>m\<close> whose untried moves and \<open>playerJustMoved\<close> are
  those of \<open>s\<close>, and returns the new node. When \<open>m\<close> is not among them it raises, and
  the untried moves and the children of the node are as before.
\<close>

theorem AddChild_effect:
  assumes "self < length h"
  shows "(m \<in> set (untriedMoves (h ! self)) \<longrightarrow>
            (\<exists>n h'. AddChild g h self m s = (Inr n, h') \<and>
               untriedMoves (h' ! self) = remove1 m (untriedMoves (h ! self)) \<and>
               childNodes (h' ! self) = childNodes (h ! self) @ [n] \<and>
               n = length h \<and> length h' = Suc (length h) \<and>
               move (h' ! n) = Some m \<and>
               untriedMoves (h' ! n) = GetMoves g s \<and>
               playerJustMoved (h' ! n) = statePlayerJustMoved g s \<and>
               parentNode (h' ! n) = Some self)) \<and>
         (m \<notin> set (untriedMoves (h ! self)) \<longrightarrow>
            (\<exists>h'. AddChild g h self m s = (Inl ValueError, h') \<and>
               untriedMoves (h' ! self) = untriedMoves (h ! self) \<and>
               childNodes (h' ! self) = childNodes (h ! self)))"
  using assms by (simp add: AddChild_def Let_def nth_append Node_init_def)

theorem AddChild_effect_witness:
  "(1::nat) < length nim_tree2 \<and> 1 \<in> set (untriedMoves (nim_tree2 ! 1)) \<and>
   fst (AddChild nim nim_tree2 1 1 (0, 2)) = Inr 3 \<and>
   untriedMoves (snd (AddChild nim nim_tree2 1 1 (0, 2)) ! 1) = [] \<and>
   childNodes (snd (AddChild nim nim_tree2 1 1 (0, 2)) ! 1) = [3] \<and>
   move (snd (AddChild nim nim_tree2 1 1 (0, 2)) ! 3) = Some 1 \<and>
   2 \<notin> set (untriedMoves (nim_tree2 ! 1)) \<and>
   fst (AddChild nim nim_tree2 1 2 (0, 2)) = Inl ValueError \<and>
   untriedMoves (snd (AddChild nim nim_tree2 1 2 (0, 2)) ! 1) = [1] \<and>
   childNodes (snd (AddChild nim nim_tree2 1 2 (0, 2)) ! 1) = []"
  using AddChild_effect [of 1 nim_tree2 1 nim "(0, 2)"] AddChild_effect [of 1 nim_tree2 2 nim "(0, 2)"]
  by (auto simp: nim_tree2_def numeral_3_eq_3)

subsection \<open>Ties\<close>

lemma most_visited_last:
  assumes "childNodes (t ! 0) \<noteq> []"
  shows "\<exists>j<length (childNodes (t ! 0)).
           most_visited t = Inr (move (t ! (childNodes (t ! 0) ! j))) \<and>
           (\<forall>i<length (childNodes (t ! 0)).
              visits (t ! (childNodes (t ! 0) ! i)) \<le> visits (t ! (childNodes (t ! 0) ! j))) \<and>
           (\<forall>i<length (childNodes (t ! 0)). j < i \<longrightarrow>
              visits (t ! (childNodes (t ! 0) ! i)) < visits (t ! (childNodes (t ! 0) ! j)))"
proof -
  let ?cs = "childNodes (t ! 0)"
  have keys: "\<forall>c\<in>set ?cs. Inr (visits (t ! c)) = (Inr (visits (t ! c)) :: error + nat)" by simp
  from py_sorted_last[OF assms, of "\<lambda>c. Inr (visits (t ! c))" "\<lambda>c. visits (t ! c)"]
  obtain j where j: "j < length ?cs"
    "err_bind (py_sorted (\<lambda>c. Inr (visits (t ! c))) ?cs) py_last = Inr (?cs ! j)"
    "\<forall>i<length ?cs. visits (t ! (?cs ! i)) \<le> visits (t ! (?cs ! j))"
    "\<forall>i<length ?cs. j < i \<longrightarrow> visits (t ! (?cs ! i)) < visits (t ! (?cs ! j))"
    by auto
  from j(2) have "most_visited t = Inr (move (t ! (?cs ! j)))"
    by (auto simp: most_visited_def err_bind_def split: sum.splits)
  with j show ?thesis by blast
qed






subsection \<open>A root without moves\<close>

lemma terminal_root_iteration:
  assumes "GetMoves g rootstate = []" "untriedMoves n = []" "childNodes n = []" "parentNode n = None"
  shows "\<exists>n'. UCT_iteration F g rootstate sel w rnd ([n], i) = Some (Inr ([n'], i)) \<and>
           untriedMoves n' = [] \<and> childNodes n' = [] \<and> parentNode n' = None"
  using assms
  by (simp add: select_loop.simps expand_def rollout.simps backpropagate.simps Update_def)

lemma terminal_root_loop:
  assumes "GetMoves g rootstate = []"
  shows "untriedMoves n = [] \<Longrightarrow> childNodes n = [] \<Longrightarrow> parentNode n = None \<Longrightarrow>
         \<exists>n'. UCT_loop F g rootstate sel w rnd k ([n], i) = Some (Inr ([n'], i)) \<and> childNodes n' = []"
proof (induction k arbitrary: n)
  case 0
  then show ?case by simp
next
  case (Suc k)
  from terminal_root_iteration[OF assms Suc.prems, of F sel w rnd i]
  obtain n' where n': "UCT_iteration F g rootstate sel w rnd ([n], i) = Some (Inr ([n'], i))"
    "untriedMoves n' = []" "childNodes n' = []" "parentNode n' = None" by blast
  from Suc.IH[OF n'(2,3,4)] n'(1) show ?case by simp
qed

text \<open>
  Claim C5. On a state without legal moves \<open>UCT\<close> raises instead of returning a move,
  whatever the number of iterations: the root never gets a child, and the last
  element of the empty list of its children is asked for.
\<close>

theorem UCT_terminal_root_raises:
  assumes "GetMoves g rootstate = []"
  shows "UCT F g rootstate itermax sel w rnd = Some (Inl IndexError)"
proof -
  let ?root = "Node_init g None None rootstate"
  have "untriedMoves ?root = []" "childNodes ?root = []" "parentNode ?root = None"
    using assms by (simp_all add: Node_init_def)
  from terminal_root_loop[OF assms this, of F sel w rnd "nat itermax" 0]
  obtain n' where "UCT_tree F g rootstate itermax sel w rnd = Some (Inr ([n'], 0))" "childNodes n' = []"
    unfolding UCT_tree_def by blast
  then show ?thesis
    by (simp add: UCT_def most_visited_def py_sorted_def py_last_def err_bind_def)
qed

theorem UCT_terminal_root_raises_witness:
  "GetMoves nim (0, 2) = [] \<and> UCT ieee nim (0, 2) 5 (\<lambda>c. Inr 0) 0 (\<lambda>i. 0) = Some (Inl IndexError)"
  using UCT_terminal_root_raises [of nim "(0, 2)" ieee 5 "\<lambda>c. Inr 0" 0 "\<lambda>i. 0"] by simp

subsection \<open>The invariants, unfolded\<close>

lemma tree_struct_nonempty: "tree_struct h \<Longrightarrow> 0 < length h"
  unfolding tree_struct_def by simp

lemma tree_struct_root: "tree_struct h \<Longrightarrow> parentNode (h ! 0) = None"
  unfolding tree_struct_def by simp

lemma tree_struct_distinct: "tree_struct h \<Longrightarrow> r < length h \<Longrightarrow> distinct (childNodes (h ! r))"
  unfolding tree_struct_def by blast

lemma tree_struct_child:
  "tree_struct h \<Longrightarrow> r < length h \<Longrightarrow> c \<in> set (childNodes (h ! r)) \<Longrightarrow>
   c < length h \<and> parentNode (h ! c) = Some r \<and> r < c"
  unfolding tree_struct_def by blast

lemma tree_struct_parent:
  "tree_struct h \<Longrightarrow> r < length h \<Longrightarrow> parentNode (h ! r) = Some p \<Longrightarrow>
   p < r \<and> r \<in> set (childNodes (h ! p))"
  unfolding tree_struct_def by blast

lemma tree_struct_nonroot:
  "tree_struct h \<Longrightarrow> r < length h \<Longrightarrow> 0 < r \<Longrightarrow>
   (\<exists>p. parentNode (h ! r) = Some p) \<and> (\<exists>m. move (h ! r) = Some m)"
  unfolding tree_struct_def by blast

lemma visited_nonroot: "visited h \<Longrightarrow> r < length h \<Longrightarrow> 0 < r \<Longrightarrow> 1 \<le> visits (h ! r)"
  unfolding visited_def by blast

lemma visited_parent:
  "visited h \<Longrightarrow> r < length h \<Longrightarrow> childNodes (h ! r) \<noteq> [] \<Longrightarrow> 1 \<le> visits (h ! r)"
  unfolding visited_def by blast

lemma visited_node_inv: "visited h \<Longrightarrow> r < length h \<Longrightarrow> node_inv (h ! r)"
  unfolding visited_def by blast

lemma sel_totalD: "sel_total sel \<Longrightarrow> 1 \<le> visits n \<Longrightarrow> node_inv n \<Longrightarrow> \<exists>v. sel n = Inr v"
  unfolding sel_total_def by blast

subsection \<open>Selection\<close>

lemma keyed_length: "keyed f xs = Inr ks \<Longrightarrow> map snd ks = xs"
  by (induction xs arbitrary: ks) (auto split: sum.splits)

lemma py_sorted_set: "py_sorted f xs = Inr s \<Longrightarrow> set s = set xs"
proof -
  assume a: "py_sorted f xs = Inr s"
  then obtain ks where ks: "keyed f xs = Inr ks" "s = map snd (sort_key fst ks)"
    by (auto simp: py_sorted_def split: sum.splits)
  have "set s = snd ` set ks" using ks(2) by simp
  also have "\<dots> = set (map snd ks)" by simp
  finally show ?thesis using keyed_length[OF ks(1)] by simp
qed

lemma UCTSelectChild_child:
  assumes "UCTSelectChild F h p sel w = Inr c"
  shows "c \<in> set (childNodes (h ! p))"
proof -
  from assms obtain s where s: "py_sorted (\<lambda>c. ucb_key F sel w (h ! p) (h ! c)) (childNodes (h ! p)) = Inr s"
    "py_last s = Inr c"
    by (auto simp: UCTSelectChild_def err_bind_def split: sum.splits)
  from s(2) have "c \<in> set s" by (auto simp: py_last_def split: if_splits)
  with py_sorted_set[OF s(1)] show ?thesis by simp
qed

lemma select_loop_result:
  assumes "tree_struct h"
  shows "node < length h \<Longrightarrow> select_loop F g sel w h node state = Some (Inr (node', state')) \<Longrightarrow>
         node' < length h \<and> node \<le> node' \<and>
         \<not> (untriedMoves (h ! node') = [] \<and> childNodes (h ! node') \<noteq> [])"
proof (induction "length h - node" arbitrary: node state rule: less_induct)
  case less
  show ?case
  proof (cases "untriedMoves (h ! node) = [] \<and> childNodes (h ! node) \<noteq> []")
    case False
    with less.prems show ?thesis by (subst (asm) select_loop.simps) auto
  next
    case True
    with less.prems(2) obtain c m where c: "UCTSelectChild F h node sel w = Inr c"
      "move (h ! c) = Some m" "select_loop F g sel w h c (DoMove g state m) = Some (Inr (node', state'))"
      by (subst (asm) select_loop.simps) (auto split: sum.splits option.splits)
    from tree_struct_child[OF assms less.prems(1) UCTSelectChild_child[OF c(1)]]
    have cc: "c < length h" "node < c" by simp_all
    then have "length h - c < length h - node" by simp
    from less.hyps[OF this cc(1) c(3)] cc(2) show ?thesis by simp
  qed
qed

lemma UCTSelectChild_total:
  assumes "visited h" "tree_struct h" "p < length h" "childNodes (h ! p) \<noteq> []" "sel_total sel"
    and "sign_safe F"
  shows "\<exists>c. UCTSelectChild F h p sel w = Inr c"
proof -
  let ?cs = "childNodes (h ! p)"
  have pv: "0 < visits (h ! p)" using visited_parent[OF assms(1,3,4)] by simp
  have "\<forall>c\<in>set ?cs. \<exists>v. 0 < visits (h ! c) \<and> sel (h ! c) = Inr v"
  proof
    fix c assume c: "c \<in> set ?cs"
    from tree_struct_child[OF assms(2,3) c] have cl: "c < length h" "0 < c" by simp_all
    from visited_nonroot[OF assms(1) cl] visited_node_inv[OF assms(1) cl(1)]
    have v: "1 \<le> visits (h ! c)" "node_inv (h ! c)" .
    from sel_totalD[OF assms(5) v] v(1) show "\<exists>v. 0 < visits (h ! c) \<and> sel (h ! c) = Inr v"
      by auto
  qed
  then obtain hv where hv: "\<forall>c\<in>set ?cs. 0 < visits (h ! c) \<and> sel (h ! c) = Inr (hv c)"
    by metis
  have keys: "\<forall>c\<in>set ?cs. ucb_key F sel w (h ! p) (h ! c) = Inr (float_score F w (h ! p) (h ! c) (hv c))"
    using hv pv assms(6) by (simp add: ucb_key_score)
  from py_sorted_last[OF assms(4) keys] show ?thesis
    unfolding UCTSelectChild_def by blast
qed

lemma select_loop_total:
  assumes "tree_struct h" "visited h" "sel_total sel" "sign_safe F"
  shows "node < length h \<Longrightarrow> \<exists>node' state'. select_loop F g sel w h node state = Some (Inr (node', state'))"
proof (induction "length h - node" arbitrary: node state rule: less_induct)
  case less
  show ?case
  proof (cases "untriedMoves (h ! node) = [] \<and> childNodes (h ! node) \<noteq> []")
    case False
    then show ?thesis by (subst select_loop.simps) auto
  next
    case True
    then have ne: "childNodes (h ! node) \<noteq> []" by simp
    from UCTSelectChild_total[OF assms(2,1) less.prems ne assms(3,4)]
    obtain c where c: "UCTSelectChild F h node sel w = Inr c" by blast
    from tree_struct_child[OF assms(1) less.prems UCTSelectChild_child[OF c]]
    have cc: "c < length h" and lt: "node < c" by simp_all
    then have "0 < c" by simp
    from tree_struct_nonroot[OF assms(1) cc this] obtain m where m: "move (h ! c) = Some m"
      by blast
    from lt cc have "length h - c < length h - node" by simp
    from less.hyps[OF this cc(1), of "DoMove g state m"] True c m show ?thesis
      by (subst select_loop.simps) auto
  qed
qed

subsection \<open>Rollouts\<close>

lemma rollout_no_error:
  assumes "rollout g rnd state i = Some r"
  shows "\<exists>state' i'. r = Inr (state', i')"
  by (rule rollout.raw_induct
        [where P = "\<lambda>g rnd state i r. \<exists>state' i'. r = Inr (state', i')", OF _ assms])
    (auto simp: random_choice_def split: if_splits)

lemma rollout_total:
  assumes "finite_game g rank"
  shows "\<exists>state' i'. rollout g rnd state i = Some (Inr (state', i'))"
proof (induction "rank state" arbitrary: state i rule: less_induct)
  case less
  show ?case
  proof (cases "GetMoves g state = []")
    case True
    then show ?thesis by (subst rollout.simps) simp
  next
    case False
    let ?m = "GetMoves g state ! (rnd i mod length (GetMoves g state))"
    from False have "?m \<in> set (GetMoves g state)" by simp
    with assms have "rank (DoMove g state ?m) < rank state" by (auto simp: finite_game_def)
    from less.hyps[OF this, of "Suc i"] False show ?thesis
      by (subst rollout.simps) (simp add: random_choice_def)
  qed
qed

subsection \<open>Ancestors\<close>

lemma anc_unfold: "anc par n r \<longleftrightarrow> r = n \<or> (\<exists>p. par n = Some p \<and> anc par p r)"
  by (auto elim: anc.cases intro: anc.intros)

lemma anc_le:
  assumes "tree_struct h"
  shows "anc (parent_of h) n r \<Longrightarrow> n < length h \<Longrightarrow> r \<le> n"
proof (induction rule: anc.induct)
  case (anc_self n)
  then show ?case by simp
next
  case (anc_step n p r)
  from tree_struct_parent[OF assms anc_step.prems] anc_step.hyps(1)
  have "p < n" by (simp add: parent_of_def)
  with anc_step show ?case by simp
qed

lemma anc_root:
  assumes "tree_struct h"
  shows "n < length h \<Longrightarrow> anc (parent_of h) n 0"
proof (induction n rule: less_induct)
  case (less n)
  show ?case
  proof (cases "n = 0")
    case True
    then show ?thesis by (simp add: anc_self)
  next
    case False
    with tree_struct_nonroot[OF assms less.prems] obtain p where p: "parentNode (h ! n) = Some p"
      by auto
    from tree_struct_parent[OF assms less.prems p] have "p < n" by simp
    with less have "anc (parent_of h) p 0" by simp
    moreover have "parent_of h n = Some p" using p by (simp add: parent_of_def)
    ultimately show ?thesis by (rule anc_step[rotated])
  qed
qed

lemma anc_of_root:
  assumes "tree_struct h"
  shows "anc (parent_of h) 0 r \<longleftrightarrow> r = 0"
  using tree_struct_root[OF assms] by (subst anc_unfold) (simp add: parent_of_def)

lemma anc_one_root_child:
  assumes "tree_struct h"
  shows "n < length h \<Longrightarrow> 0 < n \<Longrightarrow>
         \<exists>c. \<forall>c'. (anc (parent_of h) n c' \<and> parent_of h c' = Some 0) \<longleftrightarrow> c' = c"
proof (induction n rule: less_induct)
  case (less n)
  from tree_struct_nonroot[OF assms less.prems] obtain p where p: "parentNode (h ! n) = Some p"
    by auto
  from tree_struct_parent[OF assms less.prems(1) p] have pn: "p < n" by simp
  have unf: "anc (parent_of h) n c' \<longleftrightarrow> c' = n \<or> anc (parent_of h) p c'" for c'
    using p by (subst anc_unfold) (simp add: parent_of_def)
  show ?case
  proof (cases "p = 0")
    case True
    have "(anc (parent_of h) n c' \<and> parent_of h c' = Some 0) \<longleftrightarrow> c' = n" for c'
      using unf[of c'] True p anc_of_root[OF assms, of c'] tree_struct_root[OF assms]
      by (auto simp: parent_of_def)
    then show ?thesis by blast
  next
    case False
    with less.IH[OF pn] pn less.prems(1) obtain c where
      c: "\<And>c'. (anc (parent_of h) p c' \<and> parent_of h c' = Some 0) \<longleftrightarrow> c' = c"
      by (metis less_trans neq0_conv)
    have "(anc (parent_of h) n c' \<and> parent_of h c' = Some 0) \<longleftrightarrow> c' = c" for c'
      using unf[of c'] c[of c'] p False by (auto simp: parent_of_def)
    then show ?thesis by blast
  qed
qed

subsection \<open>Updating a node in the store\<close>

lemma length_Update [simp]: "length (Update F h n x) = length h"
  by (simp add: Update_def)

lemma Update_nth:
  "Update F h n x ! r =
     (if r = n \<and> n < length h
      then (h ! n)\<lparr>visits := visits (h ! n) + 1, wins := fround F (wins (h ! n) + x),
             rollouts_counter := counter_incr (rollouts_counter (h ! n)) x,
             last_rollout_res := Some x\<rparr>
      else h ! r)"
proof (cases "n < length h")
  case True
  then show ?thesis by (simp add: Update_def nth_list_update)
next
  case False
  then show ?thesis by (simp add: Update_def list_update_beyond)
qed

lemma Update_shape [simp]:
  "move (Update F h n x ! r) = move (h ! r)"
  "parentNode (Update F h n x ! r) = parentNode (h ! r)"
  "childNodes (Update F h n x ! r) = childNodes (h ! r)"
  "untriedMoves (Update F h n x ! r) = untriedMoves (h ! r)"
  "playerJustMoved (Update F h n x ! r) = playerJustMoved (h ! r)"
  by (simp_all add: Update_nth)

lemma Update_visits:
  "n < length h \<Longrightarrow> visits (Update F h n x ! r) = visits (h ! r) + (if r = n then 1 else 0)"
  by (simp add: Update_def)

lemma Update_node_inv:
  assumes "node_inv (h ! r)"
  shows "node_inv (Update F h n x ! r)"
proof (cases "r = n \<and> n < length h")
  case True
  have "distinct (map fst (counter_incr c x))" if "distinct (map fst c)" for c :: "real counter"
    using that by (simp add: counter_incr_def distinct_counter_set)
  with True assms show ?thesis
    by (simp add: Update_nth node_inv_def sum_counter_incr)
next
  case False
  then have "Update F h n x ! r = h ! r" by (auto simp: Update_nth)
  with assms show ?thesis by simp
qed

lemma same_shape_refl: "same_shape h h"
  by (simp add: same_shape_def)

lemma same_shape_trans: "same_shape h h1 \<Longrightarrow> same_shape h1 h2 \<Longrightarrow> same_shape h h2"
  by (simp add: same_shape_def)

lemma same_shape_Update: "same_shape h (Update F h n x)"
  by (simp add: same_shape_def)

lemma same_shape_tree_struct:
  assumes "same_shape h h'" and "tree_struct h"
  shows "tree_struct h'"
proof -
  from assms(1) have len: "length h' = length h"
    and f: "\<And>r. parentNode (h' ! r) = parentNode (h ! r)"
      "\<And>r. childNodes (h' ! r) = childNodes (h ! r)"
      "\<And>r. move (h' ! r) = move (h ! r)"
    by (simp_all add: same_shape_def)
  have ne: "h' \<noteq> []" using len tree_struct_nonempty[OF assms(2)] by auto
  have "tree_struct h' = tree_struct h"
    unfolding tree_struct_def using ne tree_struct_nonempty[OF assms(2)] by (simp add: len f)
  with assms(2) show ?thesis by simp
qed

lemma same_shape_parent_of: "same_shape h h' \<Longrightarrow> parent_of h' = parent_of h"
  by (rule ext) (simp add: same_shape_def parent_of_def)

subsection \<open>Backpropagation\<close>

lemma backpropagate_effect:
  "tree_struct h \<Longrightarrow> n < length h \<Longrightarrow>
   \<exists>h'. backpropagate F g h (Some n) state = Some h' \<and> same_shape h h' \<and>
        (\<forall>r. visits (h' ! r) = visits (h ! r) + (if anc (parent_of h) n r then 1 else 0)) \<and>
        (\<forall>r. node_inv (h ! r) \<longrightarrow> node_inv (h' ! r))"
proof (induction n arbitrary: h rule: less_induct)
  case (less n)
  let ?x = "GetResult g state (playerJustMoved (h ! n))"
  let ?h1 = "Update F h n ?x"
  have step: "backpropagate F g h (Some n) state = backpropagate F g ?h1 (parentNode (h ! n)) state"
    by (subst backpropagate.simps) simp
  have sh1: "same_shape h ?h1" by (rule same_shape_Update)
  have v1: "visits (?h1 ! r) = visits (h ! r) + (if r = n then 1 else 0)" for r
    using less.prems(2) by (rule Update_visits)
  show ?case
  proof (cases "parentNode (h ! n)")
    case None
    then have "backpropagate F g h (Some n) state = Some ?h1"
      using step by (simp add: backpropagate.simps)
    moreover have "anc (parent_of h) n r \<longleftrightarrow> r = n" for r
      using None by (subst anc_unfold) (simp add: parent_of_def)
    then have "visits (?h1 ! r) = visits (h ! r) + (if anc (parent_of h) n r then 1 else 0)" for r
      using v1[of r] by simp
    moreover have "node_inv (h ! r) \<longrightarrow> node_inv (?h1 ! r)" for r
      using Update_node_inv[of h r F n ?x] by blast
    ultimately show ?thesis using sh1 by blast
  next
    case (Some p)
    from tree_struct_parent[OF less.prems Some] have pn: "p < n" by simp
    have ts1: "tree_struct ?h1" using sh1 less.prems(1) by (rule same_shape_tree_struct)
    have pl: "p < length ?h1" using pn less.prems(2) by simp
    from less.IH[OF pn ts1 pl] obtain h' where h':
      "backpropagate F g ?h1 (Some p) state = Some h'" "same_shape ?h1 h'"
      "\<And>r. visits (h' ! r) = visits (?h1 ! r) + (if anc (parent_of ?h1) p r then 1 else 0)"
      "\<And>r. node_inv (?h1 ! r) \<Longrightarrow> node_inv (h' ! r)"
      by blast
    have par: "parent_of ?h1 = parent_of h" using sh1 by (rule same_shape_parent_of)
    have unf: "anc (parent_of h) n r \<longleftrightarrow> r = n \<or> anc (parent_of h) p r" for r
      using Some by (subst anc_unfold) (simp add: parent_of_def)
    have excl: "\<not> anc (parent_of h) p n"
      using anc_le[OF less.prems(1), of p n] pn less.prems(2) by auto
    have "visits (h' ! r) = visits (h ! r) + (if anc (parent_of h) n r then 1 else 0)" for r
    proof (cases "r = n")
      case True
      then show ?thesis using h'(3)[of r] v1[of r] par unf[of r] excl by simp
    next
      case False
      then show ?thesis using h'(3)[of r] v1[of r] par unf[of r] by simp
    qed
    moreover have "same_shape h h'" using sh1 h'(2) by (rule same_shape_trans)
    moreover have "node_inv (h ! r) \<longrightarrow> node_inv (h' ! r)" for r
      using h'(4)[of r] Update_node_inv[of h r F n ?x] by blast
    moreover have "backpropagate F g h (Some n) state = Some h'"
      using step Some h'(1) by simp
    ultimately show ?thesis by blast
  qed
qed

subsection \<open>Expansion\<close>

lemma expand_none:
  "untriedMoves (h ! node) = [] \<Longrightarrow> expand g rnd h node state i = Inr (h, node, state, i)"
  by (simp add: expand_def)

lemma expand_new:
  assumes ts: "tree_struct h" and nl: "node < length h" and ne: "untriedMoves (h ! node) \<noteq> []"
  shows "\<exists>h1 m. expand g rnd h node state i = Inr (h1, length h, DoMove g state m, Suc i) \<and>
           length h1 = Suc (length h) \<and> tree_struct h1 \<and>
           parentNode (h1 ! length h) = Some node \<and> visits (h1 ! length h) = 0 \<and>
           node_inv (h1 ! length h) \<and> childNodes (h1 ! length h) = [] \<and>
           (\<forall>r<length h. visits (h1 ! r) = visits (h ! r) \<and>
              rollouts_counter (h1 ! r) = rollouts_counter (h ! r) \<and>
              last_rollout_res (h1 ! r) = last_rollout_res (h ! r) \<and>
              (r \<noteq> node \<longrightarrow> childNodes (h1 ! r) = childNodes (h ! r) \<and>
                 untriedMoves (h1 ! r) = untriedMoves (h ! r))) \<and>
           childNodes (h1 ! node) = childNodes (h ! node) @ [length h]"
proof -
  let ?n = "length h"
  let ?m = "untriedMoves (h ! node) ! (rnd i mod length (untriedMoves (h ! node)))"
  let ?s = "DoMove g state ?m"
  let ?new = "Node_init g (Some ?m) (Some node) ?s"
  let ?upd = "(h ! node)\<lparr>untriedMoves := remove1 ?m (untriedMoves (h ! node)),
                          childNodes := childNodes (h ! node) @ [?n]\<rparr>"
  let ?h1 = "(h @ [?new])[node := ?upd]"
  have mem: "?m \<in> set (untriedMoves (h ! node))" using ne by simp
  have ex: "expand g rnd h node state i = Inr (?h1, ?n, ?s, Suc i)"
    using ne mem nl by (simp add: expand_def random_choice_def AddChild_def Let_def nth_append)
  have len: "length ?h1 = Suc ?n" by simp
  have at_new: "?h1 ! ?n = ?new" using nl by (simp add: nth_append)
  have at_node: "?h1 ! node = ?upd" using nl by (simp add: nth_append)
  have at_old: "?h1 ! r = h ! r" if "r < ?n" "r \<noteq> node" for r
    using that by (simp add: nth_append)
  have par: "parentNode (?h1 ! r) = parentNode (h ! r)" if "r < ?n" for r
    using that at_node at_old[of r] by (cases "r = node") simp_all
  have mv: "move (?h1 ! r) = move (h ! r)" if "r < ?n" for r
    using that at_node at_old[of r] by (cases "r = node") simp_all
  have ch: "set (childNodes (?h1 ! r)) = set (childNodes (h ! r)) \<union> (if r = node then {?n} else {})"
    if "r < ?n" for r
    using that at_node at_old[of r] by (cases "r = node") simp_all
  have ch_lt: "c < ?n" if "r < ?n" "c \<in> set (childNodes (h ! r))" for r c
    using tree_struct_child[OF ts that] by simp
  have new_fields: "parentNode ?new = Some node" "move ?new = Some ?m" "childNodes ?new = []"
    "visits ?new = 0" "node_inv ?new"
    by (simp_all add: Node_init_def node_inv_def)
  have ts1: "tree_struct ?h1"
    unfolding tree_struct_def
  proof (intro conjI allI impI)
    show "?h1 \<noteq> []" by simp
    show "parentNode (?h1 ! 0) = None"
      using par[of 0] tree_struct_root[OF ts] tree_struct_nonempty[OF ts] by simp
  next
    fix r assume r: "r < length ?h1"
    show "distinct (childNodes (?h1 ! r))"
    proof (cases "r = ?n")
      case True
      then show ?thesis using at_new new_fields by simp
    next
      case False
      with r have rl: "r < ?n" by simp
      show ?thesis
      proof (cases "r = node")
        case True
        have "?n \<notin> set (childNodes (h ! node))" using ch_lt[OF nl] by auto
        then show ?thesis using True at_node tree_struct_distinct[OF ts nl] by simp
      next
        case False
        then show ?thesis using at_old[OF rl] tree_struct_distinct[OF ts rl] by simp
      qed
    qed
  next
    fix r assume r: "r < length ?h1"
    show "\<forall>c\<in>set (childNodes (?h1 ! r)). c < length ?h1 \<and> parentNode (?h1 ! c) = Some r"
    proof
      fix c assume c: "c \<in> set (childNodes (?h1 ! r))"
      show "c < length ?h1 \<and> parentNode (?h1 ! c) = Some r"
      proof (cases "r = ?n")
        case True
        with c at_new new_fields show ?thesis by simp
      next
        case False
        with r have rl: "r < ?n" by simp
        show ?thesis
        proof (cases "c = ?n")
          case True
          with c ch[OF rl] ch_lt[OF rl, of c] have "r = node" by (auto split: if_splits)
          with True at_new new_fields show ?thesis by simp
        next
          case False
          with c ch[OF rl] have c': "c \<in> set (childNodes (h ! r))" by (auto split: if_splits)
          from tree_struct_child[OF ts rl c'] par[of c] show ?thesis by simp
        qed
      qed
    qed
  next
    fix r p assume r: "r < length ?h1" and p: "parentNode (?h1 ! r) = Some p"
    show "p < r" "r \<in> set (childNodes (?h1 ! p))"
    proof -
      show "p < r"
      proof (cases "r = ?n")
        case True
        with p at_new new_fields nl show ?thesis by simp
      next
        case False
        with r have rl: "r < ?n" by simp
        with p par[OF rl] tree_struct_parent[OF ts rl] show ?thesis by simp
      qed
      show "r \<in> set (childNodes (?h1 ! p))"
      proof (cases "r = ?n")
        case True
        with p at_new new_fields have "p = node" by simp
        with True ch[OF nl] show ?thesis by simp
      next
        case False
        with r have rl: "r < ?n" by simp
        with p par[OF rl] tree_struct_parent[OF ts rl, of p]
        have pp: "p < r" "r \<in> set (childNodes (h ! p))" by simp_all
        with rl have "p < ?n" by simp
        from ch[OF this] pp(2) show ?thesis by simp
      qed
    qed
  next
    fix r assume r: "r < length ?h1" and pos: "0 < r"
    show "parentNode (?h1 ! r) \<noteq> None" "move (?h1 ! r) \<noteq> None"
    proof -
      show "parentNode (?h1 ! r) \<noteq> None"
      proof (cases "r = ?n")
        case True
        with at_new new_fields show ?thesis by simp
      next
        case False
        with r have rl: "r < ?n" by simp
        with par[OF rl] tree_struct_nonroot[OF ts rl pos] show ?thesis by auto
      qed
      show "move (?h1 ! r) \<noteq> None"
      proof (cases "r = ?n")
        case True
        with at_new new_fields show ?thesis by simp
      next
        case False
        with r have rl: "r < ?n" by simp
        with mv[OF rl] tree_struct_nonroot[OF ts rl pos] show ?thesis by auto
      qed
    qed
  qed
  have old: "visits (?h1 ! r) = visits (h ! r) \<and>
             rollouts_counter (?h1 ! r) = rollouts_counter (h ! r) \<and>
             last_rollout_res (?h1 ! r) = last_rollout_res (h ! r) \<and>
             (r \<noteq> node \<longrightarrow> childNodes (?h1 ! r) = childNodes (h ! r) \<and>
                untriedMoves (?h1 ! r) = untriedMoves (h ! r))" if "r < ?n" for r
    using that at_node at_old[of r] by (cases "r = node") simp_all
  have "childNodes (?h1 ! node) = childNodes (h ! node) @ [?n]" using at_node by simp
  with ex len ts1 at_new new_fields old show ?thesis by (intro exI[of _ ?h1] exI[of _ ?m]) simp
qed

subsection \<open>The children of the root on a path\<close>

lemma children_on_path:
  assumes ts: "tree_struct h" and nl: "n < length h" and pos: "0 < n"
  shows "sum_list (map (\<lambda>c. if anc (parent_of h) n c then 1 else 0) (childNodes (h ! 0))) = (1::nat)"
proof -
  let ?cs = "childNodes (h ! 0)"
  from anc_one_root_child[OF ts nl pos] obtain c0 where
    c0: "\<And>c'. (anc (parent_of h) n c' \<and> parent_of h c' = Some 0) \<longleftrightarrow> c' = c0" by blast
  from c0[of c0] have a0: "anc (parent_of h) n c0" and p0: "parentNode (h ! c0) = Some 0"
    by (simp_all add: parent_of_def)
  from anc_le[OF ts a0 nl] nl have "c0 < length h" by simp
  from tree_struct_parent[OF ts this p0] have mem: "c0 \<in> set ?cs" by simp
  have "(if anc (parent_of h) n c then 1 else 0) = (if c = c0 then 1 else (0::nat))"
    if "c \<in> set ?cs" for c
  proof -
    from tree_struct_child[OF ts tree_struct_nonempty[OF ts] that]
    have "parent_of h c = Some 0" by (simp add: parent_of_def)
    with c0[of c] show ?thesis by auto
  qed
  then have "map (\<lambda>c. if anc (parent_of h) n c then 1 else 0) ?cs
             = map (\<lambda>c. if c = c0 then 1 else (0::nat)) ?cs"
    by (intro map_cong) auto
  moreover have "sum_list (map (\<lambda>c. if c = c0 then 1 else (0::nat)) ?cs) = 1"
    using tree_struct_distinct[OF ts tree_struct_nonempty[OF ts]] mem
    by (simp add: sum_list_distinct_conv_sum_set)
  ultimately show ?thesis by (simp only:)
qed

subsection \<open>One iteration\<close>

lemma iteration_phases:
  assumes "UCT_iteration F g rootstate sel w rnd (h, i) = Some (Inr (h', i'))"
  shows "\<exists>node state h1 n1 state1 i1 state2.
           select_loop F g sel w h 0 rootstate = Some (Inr (node, state)) \<and>
           expand g rnd h node state i = Inr (h1, n1, state1, i1) \<and>
           rollout g rnd state1 i1 = Some (Inr (state2, i')) \<and>
           backpropagate F g h1 (Some n1) state2 = Some h'"
  using assms by (auto split: option.splits sum.splits prod.splits)

lemma node_inv_cong:
  "visits a = visits b \<Longrightarrow> rollouts_counter a = rollouts_counter b \<Longrightarrow>
   last_rollout_res a = last_rollout_res b \<Longrightarrow> node_inv a = node_inv b"
  by (simp add: node_inv_def)

lemma before_backpropagation:
  assumes ts: "tree_struct h" and vis: "visited h"
    and sl: "select_loop F g sel w h 0 rootstate = Some (Inr (node, state))"
    and ex: "expand g rnd h node state i = Inr (h1, n1, state1, i1)"
  shows "tree_struct h1" and "n1 < length h1"
    and "\<forall>r<length h1. node_inv (h1 ! r)"
    and "\<forall>r<length h1. r \<noteq> n1 \<longrightarrow> parentNode (h1 ! n1) \<noteq> Some r \<longrightarrow>
           (0 < r \<longrightarrow> 1 \<le> visits (h1 ! r)) \<and> (childNodes (h1 ! r) \<noteq> [] \<longrightarrow> 1 \<le> visits (h1 ! r))"
    and "visits (h1 ! 0) = visits (h ! 0)"
    and "root_open h \<longrightarrow> n1 \<noteq> 0 \<and> root_open h1 \<and> children_visits h1 = children_visits h"
proof -
  from select_loop_result[OF ts tree_struct_nonempty[OF ts] sl]
  have nl: "node < length h"
    and stop: "\<not> (untriedMoves (h ! node) = [] \<and> childNodes (h ! node) \<noteq> [])" by simp_all
  have "tree_struct h1 \<and> n1 < length h1 \<and> (\<forall>r<length h1. node_inv (h1 ! r)) \<and>
        (\<forall>r<length h1. r \<noteq> n1 \<longrightarrow> parentNode (h1 ! n1) \<noteq> Some r \<longrightarrow>
           (0 < r \<longrightarrow> 1 \<le> visits (h1 ! r)) \<and> (childNodes (h1 ! r) \<noteq> [] \<longrightarrow> 1 \<le> visits (h1 ! r))) \<and>
        visits (h1 ! 0) = visits (h ! 0) \<and>
        (root_open h \<longrightarrow> n1 \<noteq> 0 \<and> root_open h1 \<and> children_visits h1 = children_visits h)"
  proof (cases "untriedMoves (h ! node) = []")
    case True
    with ex have eq: "h1 = h" "n1 = node" by (simp_all add: expand_none)
    from True stop have "childNodes (h ! node) = []" by simp
    with True have "root_open h \<longrightarrow> node \<noteq> 0"
      by (cases "node = 0") (auto simp: root_open_def)
    moreover have "\<forall>r<length h. (0 < r \<longrightarrow> 1 \<le> visits (h ! r)) \<and>
        (childNodes (h ! r) \<noteq> [] \<longrightarrow> 1 \<le> visits (h ! r)) \<and> node_inv (h ! r)"
      using vis unfolding visited_def .
    ultimately show ?thesis using eq ts nl by simp
  next
    case False
    let ?n = "length h"
    from expand_new[OF ts nl False, of g rnd state i] ex obtain m where
      e: "n1 = ?n" "length h1 = Suc ?n" "tree_struct h1" "parentNode (h1 ! ?n) = Some node"
        "visits (h1 ! ?n) = 0" "node_inv (h1 ! ?n)" "childNodes (h1 ! ?n) = []"
        "childNodes (h1 ! node) = childNodes (h ! node) @ [?n]"
      and old: "\<And>r. r < ?n \<Longrightarrow> visits (h1 ! r) = visits (h ! r) \<and>
              rollouts_counter (h1 ! r) = rollouts_counter (h ! r) \<and>
              last_rollout_res (h1 ! r) = last_rollout_res (h ! r) \<and>
              (r \<noteq> node \<longrightarrow> childNodes (h1 ! r) = childNodes (h ! r) \<and>
                 untriedMoves (h1 ! r) = untriedMoves (h ! r))"
      by auto
    have ni: "node_inv (h1 ! r)" if "r < length h1" for r
    proof (cases "r = ?n")
      case True
      with e(6) show ?thesis by simp
    next
      case False
      with that e(2) have rl: "r < ?n" by simp
      from old[OF rl] have "node_inv (h1 ! r) = node_inv (h ! r)" by (intro node_inv_cong) simp_all
      with visited_node_inv[OF vis rl] show ?thesis by simp
    qed
    have vs: "(0 < r \<longrightarrow> 1 \<le> visits (h1 ! r)) \<and> (childNodes (h1 ! r) \<noteq> [] \<longrightarrow> 1 \<le> visits (h1 ! r))"
      if "r < length h1" "r \<noteq> n1" "parentNode (h1 ! n1) \<noteq> Some r" for r
    proof -
      from that e(1,2,4) have rl: "r < ?n" and rn: "r \<noteq> node" by auto
      from old[OF rl] rn have "visits (h1 ! r) = visits (h ! r)" "childNodes (h1 ! r) = childNodes (h ! r)"
        by simp_all
      with visited_nonroot[OF vis rl] visited_parent[OF vis rl] show ?thesis by auto
    qed
    have z: "0 < ?n" by (rule tree_struct_nonempty[OF ts])
    have v0: "visits (h1 ! 0) = visits (h ! 0)" using old[OF z] by simp
    have ro: "root_open h1" if "root_open h"
    proof (cases "node = 0")
      case True
      with e(8) show ?thesis by (simp add: root_open_def)
    next
      case False
      with old[OF z] that show ?thesis by (simp add: root_open_def)
    qed
    have cs: "set (childNodes (h ! 0)) \<subseteq> {..<?n}"
      using tree_struct_child[OF ts z] by auto
    have same: "sum_list (map (\<lambda>c. visits (h1 ! c)) (childNodes (h ! 0)))
                = sum_list (map (\<lambda>c. visits (h ! c)) (childNodes (h ! 0)))"
      using cs old by (intro arg_cong[where f = sum_list] map_cong) auto
    have cv: "children_visits h1 = children_visits h"
    proof (cases "node = 0")
      case True
      with e(8) e(5) same show ?thesis by (simp add: children_visits_def)
    next
      case False
      with old[OF z] same show ?thesis by (simp add: children_visits_def)
    qed
    from e(1,2,3) ni vs v0 ro cv z show ?thesis by auto
  qed
  then show "tree_struct h1" and "n1 < length h1"
    and "\<forall>r<length h1. node_inv (h1 ! r)"
    and "\<forall>r<length h1. r \<noteq> n1 \<longrightarrow> parentNode (h1 ! n1) \<noteq> Some r \<longrightarrow>
           (0 < r \<longrightarrow> 1 \<le> visits (h1 ! r)) \<and> (childNodes (h1 ! r) \<noteq> [] \<longrightarrow> 1 \<le> visits (h1 ! r))"
    and "visits (h1 ! 0) = visits (h ! 0)"
    and "root_open h \<longrightarrow> n1 \<noteq> 0 \<and> root_open h1 \<and> children_visits h1 = children_visits h"
    by blast+
qed

lemma after_backpropagation:
  assumes ts: "tree_struct h1" and nl: "n1 < length h1"
    and ni: "\<forall>r<length h1. node_inv (h1 ! r)"
    and vs: "\<forall>r<length h1. r \<noteq> n1 \<longrightarrow> parentNode (h1 ! n1) \<noteq> Some r \<longrightarrow>
           (0 < r \<longrightarrow> 1 \<le> visits (h1 ! r)) \<and> (childNodes (h1 ! r) \<noteq> [] \<longrightarrow> 1 \<le> visits (h1 ! r))"
  shows "\<exists>h2. backpropagate F g h1 (Some n1) state = Some h2 \<and> tree_struct h2 \<and> visited h2 \<and>
           length h2 = length h1 \<and>
           (n1 \<noteq> 0 \<longrightarrow> visits (h2 ! 0) = visits (h1 ! 0) + 1 \<and>
              children_visits h2 = children_visits h1 + 1 \<and> root_open h2 = root_open h1)"
proof -
  from backpropagate_effect[OF ts nl, of F g state] obtain h2 where
    bp: "backpropagate F g h1 (Some n1) state = Some h2" and sh: "same_shape h1 h2"
    and v: "\<And>r. visits (h2 ! r) = visits (h1 ! r) + (if anc (parent_of h1) n1 r then 1 else 0)"
    and inv: "\<And>r. node_inv (h1 ! r) \<Longrightarrow> node_inv (h2 ! r)"
    by blast
  from sh have len: "length h2 = length h1"
    and chs: "\<And>r. childNodes (h2 ! r) = childNodes (h1 ! r)"
    and unt: "\<And>r. untriedMoves (h2 ! r) = untriedMoves (h1 ! r)"
    by (simp_all add: same_shape_def)
  have ts2: "tree_struct h2" using sh ts by (rule same_shape_tree_struct)
  have on_path: "anc (parent_of h1) n1 r" if "r = n1 \<or> parentNode (h1 ! n1) = Some r" for r
    using that by (subst anc_unfold) (auto simp: parent_of_def intro: anc_self)
  have "visited h2"
    unfolding visited_def
  proof (intro allI impI conjI)
    fix r assume r: "r < length h2"
    then have rl: "r < length h1" using len by simp
    show "node_inv (h2 ! r)" using ni rl inv by blast
    have ge: "visits (h1 ! r) \<le> visits (h2 ! r)" using v[of r] by simp
    have path: "1 \<le> visits (h2 ! r)" if "r = n1 \<or> parentNode (h1 ! n1) = Some r"
      using v[of r] on_path[OF that] by simp
    { assume "0 < r"
      show "1 \<le> visits (h2 ! r)"
      proof (cases "r = n1 \<or> parentNode (h1 ! n1) = Some r")
        case True
        then show ?thesis by (rule path)
      next
        case False
        with vs rl \<open>0 < r\<close> have "1 \<le> visits (h1 ! r)" by blast
        with ge show ?thesis by simp
      qed }
    { assume "childNodes (h2 ! r) \<noteq> []"
      then have c: "childNodes (h1 ! r) \<noteq> []" using chs by simp
      show "1 \<le> visits (h2 ! r)"
      proof (cases "r = n1 \<or> parentNode (h1 ! n1) = Some r")
        case True
        then show ?thesis by (rule path)
      next
        case False
        with vs rl c have "1 \<le> visits (h1 ! r)" by blast
        with ge show ?thesis by simp
      qed }
  qed
  moreover have "visits (h2 ! 0) = visits (h1 ! 0) + 1 \<and>
              children_visits h2 = children_visits h1 + 1 \<and> root_open h2 = root_open h1"
    if "n1 \<noteq> 0"
  proof -
    from that have pos: "0 < n1" by simp
    have "visits (h2 ! 0) = visits (h1 ! 0) + 1" using v[of 0] anc_root[OF ts nl] by simp
    moreover have "children_visits h2 = children_visits h1 + 1"
    proof -
      have "children_visits h2
            = sum_list (map (\<lambda>c. visits (h1 ! c) + (if anc (parent_of h1) n1 c then 1 else 0))
                 (childNodes (h1 ! 0)))"
        using v chs by (simp add: children_visits_def)
      also have "\<dots> = children_visits h1
                 + sum_list (map (\<lambda>c. if anc (parent_of h1) n1 c then 1 else 0) (childNodes (h1 ! 0)))"
        by (simp add: children_visits_def sum_list_addf)
      finally show ?thesis using children_on_path[OF ts nl pos] by simp
    qed
    moreover have "root_open h2 = root_open h1" using chs unt by (simp add: root_open_def)
    ultimately show ?thesis by blast
  qed
  ultimately show ?thesis using bp ts2 len by blast
qed

lemma iteration_preserves:
  assumes ts: "tree_struct h" and vis: "visited h"
    and it: "UCT_iteration F g rootstate sel w rnd (h, i) = Some (Inr (h', i'))"
  shows "tree_struct h' \<and> visited h' \<and>
         (root_open h \<longrightarrow> root_open h' \<and> visits (h' ! 0) = visits (h ! 0) + 1 \<and>
            children_visits h' = children_visits h + 1)"
proof -
  from iteration_phases[OF it] obtain node state h1 n1 state1 i1 state2 where
    p: "select_loop F g sel w h 0 rootstate = Some (Inr (node, state))"
      "expand g rnd h node state i = Inr (h1, n1, state1, i1)"
      "backpropagate F g h1 (Some n1) state2 = Some h'"
    by blast
  note b = before_backpropagation[OF ts vis p(1,2)]
  from after_backpropagation[OF b(1-4), of F g state2] p(3)
  have a: "tree_struct h'" "visited h'"
    "n1 \<noteq> 0 \<longrightarrow> visits (h' ! 0) = visits (h1 ! 0) + 1 \<and>
       children_visits h' = children_visits h1 + 1 \<and> root_open h' = root_open h1"
    by auto
  with b(5,6) show ?thesis by auto
qed

lemma iteration_total:
  assumes ts: "tree_struct h" and vis: "visited h"
    and fin: "finite_game g rank" and st: "sel_total sel" and ss: "sign_safe F"
  shows "\<exists>h' i'. UCT_iteration F g rootstate sel w rnd (h, i) = Some (Inr (h', i'))"
proof -
  from select_loop_total[OF ts vis st ss tree_struct_nonempty[OF ts], of g w rootstate]
  obtain node state where sl: "select_loop F g sel w h 0 rootstate = Some (Inr (node, state))"
    by blast
  from select_loop_result[OF ts tree_struct_nonempty[OF ts] sl] have nl: "node < length h" by simp
  obtain h1 n1 state1 i1 where ex: "expand g rnd h node state i = Inr (h1, n1, state1, i1)"
  proof (cases "untriedMoves (h ! node) = []")
    case True
    then show ?thesis using that by (simp add: expand_none)
  next
    case False
    from expand_new[OF ts nl False, of g rnd state i] that show ?thesis by blast
  qed
  from rollout_total[OF fin, of rnd state1 i1]
  obtain state2 i2 where ro: "rollout g rnd state1 i1 = Some (Inr (state2, i2))" by blast
  note b = before_backpropagation[OF ts vis sl ex]
  from after_backpropagation[OF b(1-4), of F g state2]
  obtain h2 where "backpropagate F g h1 (Some n1) state2 = Some h2" by blast
  with sl ex ro show ?thesis by simp
qed

subsection \<open>The loop\<close>

lemma loop_preserves:
  "tree_struct h \<Longrightarrow> visited h \<Longrightarrow> UCT_loop F g rootstate sel w rnd k (h, i) = Some (Inr (h', i')) \<Longrightarrow>
   tree_struct h' \<and> visited h' \<and>
   (root_open h \<longrightarrow> root_open h' \<and> visits (h' ! 0) = visits (h ! 0) + k \<and>
      children_visits h' = children_visits h + k)"
proof (induction k arbitrary: h i)
  case 0
  then show ?case by simp
next
  case (Suc k)
  from Suc.prems(3) obtain h1 i1 where
    it: "UCT_iteration F g rootstate sel w rnd (h, i) = Some (Inr (h1, i1))"
    and rest: "UCT_loop F g rootstate sel w rnd k (h1, i1) = Some (Inr (h', i'))"
    by (auto split: option.splits sum.splits)
  from iteration_preserves[OF Suc.prems(1,2) it]
  have a: "tree_struct h1" "visited h1"
    "root_open h \<longrightarrow> root_open h1 \<and> visits (h1 ! 0) = visits (h ! 0) + 1 \<and>
       children_visits h1 = children_visits h + 1"
    by simp_all
  from Suc.IH[OF a(1,2) rest] a(3) show ?case by auto
qed

lemma loop_total:
  assumes fin: "finite_game g rank" and st: "sel_total sel" and ss: "sign_safe F"
  shows "tree_struct h \<Longrightarrow> visited h \<Longrightarrow>
         \<exists>h' i'. UCT_loop F g rootstate sel w rnd k (h, i) = Some (Inr (h', i'))"
proof (induction k arbitrary: h i)
  case 0
  then show ?case by simp
next
  case (Suc k)
  from iteration_total[OF Suc.prems fin st ss, of rootstate w rnd i] obtain h1 i1 where
    it: "UCT_iteration F g rootstate sel w rnd (h, i) = Some (Inr (h1, i1))" by blast
  from iteration_preserves[OF Suc.prems it] have "tree_struct h1" "visited h1" by simp_all
  from Suc.IH[OF this, of i1] it show ?case by simp
qed

lemma initial_tree:
  "tree_struct [Node_init g None None rootstate]" "visited [Node_init g None None rootstate]"
  "root_open [Node_init g None None rootstate] \<longleftrightarrow> GetMoves g rootstate \<noteq> []"
  "visits ([Node_init g None None rootstate] ! 0) = 0"
  "children_visits [Node_init g None None rootstate] = 0"
  by (simp_all add: tree_struct_def visited_def node_inv_def root_open_def children_visits_def
      Node_init_def)

lemma reachable_valid:
  assumes "tree_struct h"
  shows "reachable h r \<Longrightarrow> r < length h"
proof (induction rule: reachable.induct)
  case reachable_root
  show ?case by (rule tree_struct_nonempty[OF assms])
next
  case (reachable_child r c)
  from tree_struct_child[OF assms reachable_child.IH reachable_child.hyps(2)] show ?case by simp
qed

lemma sel_total_regular_std:
  "sign_safe F \<Longrightarrow> \<forall>y. \<not> fhuge F y \<Longrightarrow> sel_total (regular_std F)"
  unfolding sel_total_def using regular_std_total by blast

lemma sel_total_last_res_std: "sel_total (last_res_std F)"
  unfolding sel_total_def
proof (intro allI impI)
  fix n :: "'a Node"
  assume a: "1 \<le> visits n \<and> node_inv n"
  then obtain r where "last_rollout_res n = Some r" by (auto simp: node_inv_def)
  with a last_res_std_result[of n r F] show "\<exists>v. last_res_std F n = Inr v"
    by auto
qed

subsection \<open>The tree after a search\<close>

lemma tree_after_search:
  assumes "UCT_tree F g rootstate itermax sel w rnd = Some (Inr (h, i))"
  shows "tree_struct h" and "visited h"
  using loop_preserves[OF initial_tree(1,2) assms[unfolded UCT_tree_def]] by simp_all

lemma root_after_search:
  assumes "UCT_tree F g rootstate itermax sel w rnd = Some (Inr (h, i))"
    and "GetMoves g rootstate \<noteq> []"
  shows "visits (h ! 0) = nat itermax" and "children_visits h = nat itermax"
proof -
  let ?h0 = "[Node_init g None None rootstate]"
  have "root_open ?h0" using assms(2) by (simp only: initial_tree(3) not_False_eq_True)
  with loop_preserves[OF initial_tree(1,2) assms(1)[unfolded UCT_tree_def]]
  have "visits (h ! 0) = visits (?h0 ! 0) + nat itermax"
    "children_visits h = children_visits ?h0 + nat itermax" by simp_all
  then show "visits (h ! 0) = nat itermax" and "children_visits h = nat itermax"
    by (simp_all only: initial_tree(4,5) add_0)
qed

lemma search_returns_tree:
  assumes "finite_game g rank" and "sel_total sel" and "sign_safe F"
  shows "\<exists>h i. UCT_tree F g rootstate itermax sel w rnd = Some (Inr (h, i))"
  unfolding UCT_tree_def by (rule loop_total[OF assms initial_tree(1,2)])

lemma root_has_children:
  assumes "tree_struct h" and "1 \<le> children_visits h"
  shows "childNodes (h ! 0) \<noteq> []"
  using assms(2) by (auto simp: children_visits_def)

lemma nim_uct2: "UCT ieee nim (2, 2) 2 (\<lambda>c. Inr 0) 0 (\<lambda>i. 0) = Some (Inr (Some 2))"
  by (simp add: UCT_def nim_run2 most_visited_def py_sorted_def py_last_def err_bind_def
      nim_tree2_def)

text \<open>
  Claim C3. From a root state with a legal move and for a budget of \<open>N \<ge> 1\<close>
  iterations, when the loop of \<open>UCT\<close> has completed the root has \<open>N\<close> visits and the
  visits of its children add up to \<open>N\<close>, whatever the arithmetic. The loop does
  complete when every playout of the game ends and the heuristic is defined on every
  visited node, in an arithmetic whose rounding keeps the numbers from 0 on and the
  numbers from 1 on, as that of the code and the exact one do.
\<close>

theorem root_visits_equal_budget:
  assumes "GetMoves g rootstate \<noteq> []" and "1 \<le> itermax"
  shows "(UCT_tree F g rootstate itermax sel w rnd = Some (Inr (h, i)) \<longrightarrow>
            int (visits (h ! 0)) = itermax \<and>
            int (sum_list (map (\<lambda>c. visits (h ! c)) (childNodes (h ! 0)))) = itermax) \<and>
         (sign_safe F \<and> finite_game g rank \<and> sel_total sel \<longrightarrow>
            (\<exists>h' i'. UCT_tree F g rootstate itermax sel w rnd = Some (Inr (h', i'))))"
proof (intro conjI impI)
  assume t: "UCT_tree F g rootstate itermax sel w rnd = Some (Inr (h, i))"
  from root_after_search[OF t assms(1)] assms(2)
  show "int (visits (h ! 0)) = itermax"
    and "int (sum_list (map (\<lambda>c. visits (h ! c)) (childNodes (h ! 0)))) = itermax"
    by (simp_all add: children_visits_def)
next
  assume "sign_safe F \<and> finite_game g rank \<and> sel_total sel"
  then have "finite_game g rank" and "sel_total sel" and "sign_safe F" by simp_all
  then show "\<exists>h' i'. UCT_tree F g rootstate itermax sel w rnd = Some (Inr (h', i'))"
    by (rule search_returns_tree)
qed

theorem root_visits_equal_budget_witness:
  "GetMoves nim (2, 2) \<noteq> [] \<and> (1::int) \<le> 3 \<and> (1::int) \<le> 2 \<and>
   sign_safe exact \<and> sign_safe ieee \<and>
   finite_game nim fst \<and> sel_total (\<lambda>c. Inr 0 :: error + real) \<and>
   UCT_tree exact nim (2, 2) 3 (\<lambda>c. Inr 0) 0 (\<lambda>i. 0) = Some (Inr (nim_tree3, 3)) \<and>
   int (visits (nim_tree3 ! 0)) = 3 \<and>
   int (sum_list (map (\<lambda>c. visits (nim_tree3 ! c)) (childNodes (nim_tree3 ! 0)))) = 3 \<and>
   UCT_tree ieee nim (2, 2) 2 (\<lambda>c. Inr 0) 0 (\<lambda>i. 0) = Some (Inr (nim_tree2, 3)) \<and>
   int (visits (nim_tree2 ! 0)) = 2 \<and>
   int (sum_list (map (\<lambda>c. visits (nim_tree2 ! c)) (childNodes (nim_tree2 ! 0)))) = 2"
proof -
  have a: "GetMoves nim (2, 2) \<noteq> []" "(1::int) \<le> 3" "(1::int) \<le> 2" by simp_all
  note t = root_visits_equal_budget [OF a(1,2), of exact "\<lambda>c. Inr 0" 0 "\<lambda>i. 0" nim_tree3 3 fst]
  note u = root_visits_equal_budget [OF a(1,3), of ieee "\<lambda>c. Inr 0" 0 "\<lambda>i. 0" nim_tree2 3 fst]
  from t[THEN conjunct1, THEN mp, OF nim_run3]
  have x: "int (visits (nim_tree3 ! 0)) = 3 \<and>
        int (sum_list (map (\<lambda>c. visits (nim_tree3 ! c)) (childNodes (nim_tree3 ! 0)))) = 3" .
  from u[THEN conjunct1, THEN mp, OF nim_run2]
  have y: "int (visits (nim_tree2 ! 0)) = 2 \<and>
        int (sum_list (map (\<lambda>c. visits (nim_tree2 ! c)) (childNodes (nim_tree2 ! 0)))) = 2" .
  from a x y nim_run3 nim_run2 finite_game_nim sel_total_default sign_safe_exact sign_safe_ieee
  show ?thesis by blast
qed

text \<open>
  Claim C1. From a root state with a legal move and for a budget of \<open>N \<ge> 1\<close>
  iterations, a move that \<open>UCT\<close> returns is the move of a child of the root whose
  number of visits is greatest among the children of the root, whatever the
  arithmetic. \<open>UCT\<close> does return a move when every playout of the game ends and the
  heuristic is defined on every visited node, in an arithmetic whose rounding keeps
  the numbers from 0 on and the numbers from 1 on, as that of the code and the exact
  one do.
\<close>

theorem UCT_returns_most_visited:
  assumes "GetMoves g rootstate \<noteq> []" and "1 \<le> itermax"
  shows "(UCT F g rootstate itermax sel w rnd = Some (Inr mv) \<longrightarrow>
            (\<exists>h i c. UCT_tree F g rootstate itermax sel w rnd = Some (Inr (h, i)) \<and>
               c \<in> set (childNodes (h ! 0)) \<and> mv = move (h ! c) \<and>
               (\<forall>c'\<in>set (childNodes (h ! 0)). visits (h ! c') \<le> visits (h ! c)))) \<and>
         (sign_safe F \<and> finite_game g rank \<and> sel_total sel \<longrightarrow>
            (\<exists>m. UCT F g rootstate itermax sel w rnd = Some (Inr (Some m))))"
proof -
  have found: "\<exists>c. c \<in> set (childNodes (h ! 0)) \<and> 0 < c \<and> c < length h \<and>
                 UCT F g rootstate itermax sel w rnd = Some (Inr (move (h ! c))) \<and>
                 (\<forall>c'\<in>set (childNodes (h ! 0)). visits (h ! c') \<le> visits (h ! c))"
    if t: "UCT_tree F g rootstate itermax sel w rnd = Some (Inr (h, i))" for h i
  proof -
    let ?cs = "childNodes (h ! 0)"
    note ts = tree_after_search(1)[OF t]
    from root_after_search(2)[OF t assms(1)] assms(2) have "1 \<le> children_visits h" by simp
    from root_has_children[OF ts this] have ne: "?cs \<noteq> []" .
    from most_visited_last[OF ne] obtain j where j: "j < length ?cs"
      "most_visited h = Inr (move (h ! (?cs ! j)))"
      "\<forall>k<length ?cs. visits (h ! (?cs ! k)) \<le> visits (h ! (?cs ! j))"
      by blast
    have mem: "?cs ! j \<in> set ?cs" using j(1) by simp
    from tree_struct_child[OF ts tree_struct_nonempty[OF ts] mem]
    have "0 < ?cs ! j" "?cs ! j < length h" by simp_all
    moreover have "\<forall>c'\<in>set ?cs. visits (h ! c') \<le> visits (h ! (?cs ! j))"
      using j(3) by (metis in_set_conv_nth)
    moreover have "UCT F g rootstate itermax sel w rnd = Some (Inr (move (h ! (?cs ! j))))"
      using t j(2) by (simp add: UCT_def)
    ultimately show ?thesis using mem by blast
  qed
  show ?thesis
  proof (intro conjI impI)
    assume u: "UCT F g rootstate itermax sel w rnd = Some (Inr mv)"
    then obtain h i where t: "UCT_tree F g rootstate itermax sel w rnd = Some (Inr (h, i))"
      by (auto simp: UCT_def split: option.splits sum.splits)
    from found[OF t] u show "\<exists>h i c. UCT_tree F g rootstate itermax sel w rnd = Some (Inr (h, i)) \<and>
               c \<in> set (childNodes (h ! 0)) \<and> mv = move (h ! c) \<and>
               (\<forall>c'\<in>set (childNodes (h ! 0)). visits (h ! c') \<le> visits (h ! c))"
      using t by auto
  next
    assume "sign_safe F \<and> finite_game g rank \<and> sel_total sel"
    then have "finite_game g rank" and "sel_total sel" and "sign_safe F" by simp_all
    from search_returns_tree[OF this, of rootstate itermax w rnd] obtain h i where
      t: "UCT_tree F g rootstate itermax sel w rnd = Some (Inr (h, i))" by blast
    from found[OF t] obtain c where c: "0 < c" "c < length h"
      "UCT F g rootstate itermax sel w rnd = Some (Inr (move (h ! c)))" by blast
    from tree_struct_nonroot[OF tree_after_search(1)[OF t] c(2,1)] c(3)
    show "\<exists>m. UCT F g rootstate itermax sel w rnd = Some (Inr (Some m))" by auto
  qed
qed

theorem UCT_returns_most_visited_witness:
  "GetMoves nim (2, 2) \<noteq> [] \<and> (1::int) \<le> 3 \<and> (1::int) \<le> 2 \<and>
   sign_safe exact \<and> sign_safe ieee \<and>
   finite_game nim fst \<and> sel_total (\<lambda>c. Inr 0 :: error + real) \<and>
   UCT exact nim (2, 2) 3 (\<lambda>c. Inr 0) 0 (\<lambda>i. 0) = Some (Inr (Some 2)) \<and>
   UCT_tree exact nim (2, 2) 3 (\<lambda>c. Inr 0) 0 (\<lambda>i. 0) = Some (Inr (nim_tree3, 3)) \<and>
   childNodes (nim_tree3 ! 0) = [1, 2] \<and> move (nim_tree3 ! 2) = Some 2 \<and>
   visits (nim_tree3 ! 1) \<le> visits (nim_tree3 ! 2) \<and>
   UCT ieee nim (2, 2) 2 (\<lambda>c. Inr 0) 0 (\<lambda>i. 0) = Some (Inr (Some 2))"
proof -
  have a: "GetMoves nim (2, 2) \<noteq> []" "(1::int) \<le> 3" "(1::int) \<le> 2" by simp_all
  note t = UCT_returns_most_visited [OF a(1,2), of exact "\<lambda>c. Inr 0" 0 "\<lambda>i. 0" "Some 2" fst]
  note t2 = UCT_returns_most_visited [OF a(1,3), of ieee "\<lambda>c. Inr 0" 0 "\<lambda>i. 0" "Some 2" fst]
  from t[THEN conjunct2, THEN mp, OF conjI[OF sign_safe_exact conjI[OF finite_game_nim sel_total_default]]]
  have "\<exists>m. UCT exact nim (2, 2) 3 (\<lambda>c. Inr 0) 0 (\<lambda>i. 0) = Some (Inr (Some m))" .
  with nim_uct3 have u: "UCT exact nim (2, 2) 3 (\<lambda>c. Inr 0) 0 (\<lambda>i. 0) = Some (Inr (Some 2))" by simp
  from t2[THEN conjunct2, THEN mp, OF conjI[OF sign_safe_ieee conjI[OF finite_game_nim sel_total_default]]]
  have "\<exists>m. UCT ieee nim (2, 2) 2 (\<lambda>c. Inr 0) 0 (\<lambda>i. 0) = Some (Inr (Some m))" .
  with nim_uct2 have u2: "UCT ieee nim (2, 2) 2 (\<lambda>c. Inr 0) 0 (\<lambda>i. 0) = Some (Inr (Some 2))" by simp
  have f: "childNodes (nim_tree3 ! 0) = [1, 2]" "move (nim_tree3 ! 2) = Some 2"
    "move (nim_tree3 ! 1) = Some 1"
    by (simp_all add: nim_tree3_def)
  from t[THEN conjunct1, THEN mp, OF u] nim_run3 obtain c where
    c: "c \<in> set (childNodes (nim_tree3 ! 0))" "Some 2 = move (nim_tree3 ! c)"
      "\<forall>c'\<in>set (childNodes (nim_tree3 ! 0)). visits (nim_tree3 ! c') \<le> visits (nim_tree3 ! c)"
    by auto
  from c(1,2) f have "c = 2" by auto
  with c(3) f(1) have "visits (nim_tree3 ! 1) \<le> visits (nim_tree3 ! 2)" by simp
  with a u u2 nim_run3 finite_game_nim sel_total_default sign_safe_exact sign_safe_ieee f
  show ?thesis by blast
qed

text \<open>
  Claim C4. In a search, \<open>UCTSelectChild\<close> is only called during the selection step
  of an iteration, on the tree that the iterations before it have built, which is
  the tree of a search with that many iterations. In such a tree every child of
  every node has been visited, and so has every node that has a child: the
  divisions \<open>wins / visits\<close> and \<open>2 * ln (visits p) / visits\<close> of the selection score
  and the logarithm are defined, whatever the arithmetic, and with a heuristic that
  is defined on visited nodes, in an arithmetic whose rounding keeps the numbers from
  0 on and the numbers from 1 on, the selection step of the next iteration ends in a
  node without raising.
\<close>

theorem selection_never_divides_by_zero:
  assumes "UCT_tree F g rootstate k sel w rnd = Some (Inr (h, i))"
  shows "(\<forall>p<length h. \<forall>c\<in>set (childNodes (h ! p)).
            1 \<le> visits (h ! c) \<and> 1 \<le> visits (h ! p) \<and>
            py_div F (wins (h ! c)) (visits (h ! c))
              = Inr (fround F (wins (h ! c) / py_float F (int (visits (h ! c))))) \<and>
            py_log F (visits (h ! p))
              = Inr (fround F (ln (py_float F (int (visits (h ! p)))))) \<and>
            py_div F (fround F (py_float F 2 * fround F (ln (py_float F (int (visits (h ! p)))))))
                (visits (h ! c))
              = Inr (fround F (fround F (py_float F 2 * fround F (ln (py_float F (int (visits (h ! p))))))
                       / py_float F (int (visits (h ! c)))))) \<and>
         (sign_safe F \<and> sel_total sel \<longrightarrow>
            (\<exists>node state. select_loop F g sel w h 0 rootstate = Some (Inr (node, state))))"
proof (intro conjI allI impI ballI)
  note ts = tree_after_search(1)[OF assms] and vis = tree_after_search(2)[OF assms]
  fix p c assume p: "p < length h" and c: "c \<in> set (childNodes (h ! p))"
  from tree_struct_child[OF ts p c] have cl: "c < length h" "0 < c" by simp_all
  from visited_nonroot[OF vis cl] show vc: "1 \<le> visits (h ! c)" .
  from c have "childNodes (h ! p) \<noteq> []" by auto
  from visited_parent[OF vis p this] show vp: "1 \<le> visits (h ! p)" .
  from vc show "py_div F (wins (h ! c)) (visits (h ! c))
              = Inr (fround F (wins (h ! c) / py_float F (int (visits (h ! c)))))"
    by (simp add: py_div_def)
  from vp show "py_log F (visits (h ! p))
              = Inr (fround F (ln (py_float F (int (visits (h ! p))))))"
    by (simp add: py_log_def)
  from vc show "py_div F (fround F (py_float F 2 * fround F (ln (py_float F (int (visits (h ! p)))))))
                (visits (h ! c))
              = Inr (fround F (fround F (py_float F 2 * fround F (ln (py_float F (int (visits (h ! p))))))
                       / py_float F (int (visits (h ! c)))))"
    by (simp add: py_div_def)
next
  note ts = tree_after_search(1)[OF assms] and vis = tree_after_search(2)[OF assms]
  assume "sign_safe F \<and> sel_total sel"
  then have "sel_total sel" and "sign_safe F" by simp_all
  from select_loop_total[OF ts vis this tree_struct_nonempty[OF ts]]
  show "\<exists>node state. select_loop F g sel w h 0 rootstate = Some (Inr (node, state))" .
qed

theorem selection_never_divides_by_zero_witness:
  "UCT_tree ieee nim (2, 2) 2 (\<lambda>c. Inr 0) 0 (\<lambda>i. 0) = Some (Inr (nim_tree2, 3)) \<and>
   (0::nat) < length nim_tree2 \<and> childNodes (nim_tree2 ! 0) = [1, 2] \<and>
   1 \<le> visits (nim_tree2 ! 1) \<and> 1 \<le> visits (nim_tree2 ! 2) \<and> 1 \<le> visits (nim_tree2 ! 0) \<and>
   py_div ieee (wins (nim_tree2 ! 2)) (visits (nim_tree2 ! 2)) = Inr 1 \<and>
   py_log ieee (visits (nim_tree2 ! 0)) = Inr (fl (ln 2)) \<and>
   py_div ieee (fl (2 * fl (ln 2))) (visits (nim_tree2 ! 2)) = Inr (fl (fl (2 * fl (ln 2)))) \<and>
   sign_safe ieee \<and> sel_total (\<lambda>c. Inr 0 :: error + real) \<and>
   (\<exists>node state. select_loop ieee nim (\<lambda>c. Inr 0) 0 nim_tree2 0 (2, 2) = Some (Inr (node, state)))"
proof -
  note t = selection_never_divides_by_zero [OF nim_run2]
  have l: "(0::nat) < length nim_tree2" and cs: "childNodes (nim_tree2 ! 0) = [1, 2]"
    by (simp_all add: nim_tree2_def)
  have m: "1 \<in> set (childNodes (nim_tree2 ! 0))" "2 \<in> set (childNodes (nim_tree2 ! 0))"
    by (simp_all add: cs)
  note c1 = t[THEN conjunct1, rule_format, OF l m(1)]
  note c2 = t[THEN conjunct1, rule_format, OF l m(2)]
  have w: "wins (nim_tree2 ! 2) = 1" "visits (nim_tree2 ! 2) = Suc 0" "visits (nim_tree2 ! 0) = 2"
    by (simp_all add: nim_tree2_def)
  from t[THEN conjunct2, rule_format, OF conjI[OF sign_safe_ieee sel_total_default]]
  have s: "\<exists>node state. select_loop ieee nim (\<lambda>c. Inr 0) 0 nim_tree2 0 (2, 2) = Some (Inr (node, state))" .
  from c1 c2 have "1 \<le> visits (nim_tree2 ! 1)" "1 \<le> visits (nim_tree2 ! 2)"
    "1 \<le> visits (nim_tree2 ! 0)"
    "py_div ieee (wins (nim_tree2 ! 2)) (visits (nim_tree2 ! 2)) = Inr 1"
    "py_log ieee (visits (nim_tree2 ! 0)) = Inr (fl (ln 2))"
    "py_div ieee (fl (2 * fl (ln 2))) (visits (nim_tree2 ! 2)) = Inr (fl (fl (2 * fl (ln 2))))"
    by (simp_all add: w py_float_def)
  with nim_run2 l cs sign_safe_ieee sel_total_default s show ?thesis by blast
qed

text \<open>
  Claim C8. In the tree after a search, whatever the number of iterations, the
  counts in \<open>rollouts_counter\<close> of every node reachable from the root add up to its
  \<open>visits\<close>, and a node with \<open>visits \<ge> 1\<close> has been updated: it has a last rollout
  result and a non-empty counter. The equality of the counts and \<open>visits\<close> holds again
  after every \<open>Update\<close>, which leaves at least one visit and a last rollout result.
  Since the number of iterations is arbitrary, this is the tree after each
  iteration of a search.
\<close>

theorem visits_match_outcome_counts:
  "(UCT_tree F g rootstate itermax sel w rnd = Some (Inr (h, i)) \<longrightarrow>
      (\<forall>r. reachable h r \<longrightarrow>
         r < length h \<and>
         sum_list (map snd (rollouts_counter (h ! r))) = visits (h ! r) \<and>
         (1 \<le> visits (h ! r) \<longrightarrow>
            last_rollout_res (h ! r) \<noteq> None \<and> rollouts_counter (h ! r) \<noteq> []))) \<and>
   (n < length t \<and> sum_list (map snd (rollouts_counter (t ! n))) = visits (t ! n) \<longrightarrow>
      sum_list (map snd (rollouts_counter (Update F t n x ! n))) = visits (Update F t n x ! n) \<and>
      1 \<le> visits (Update F t n x ! n) \<and> last_rollout_res (Update F t n x ! n) = Some x)"
proof (intro conjI impI allI)
  fix r
  assume t: "UCT_tree F g rootstate itermax sel w rnd = Some (Inr (h, i))" and r: "reachable h r"
  note ts = tree_after_search(1)[OF t] and vis = tree_after_search(2)[OF t]
  from reachable_valid[OF ts r] show rl: "r < length h" .
  from visited_node_inv[OF vis rl]
  show s: "sum_list (map snd (rollouts_counter (h ! r))) = visits (h ! r)"
    by (simp add: node_inv_def)
  { assume v: "1 \<le> visits (h ! r)"
    with visited_node_inv[OF vis rl] show "last_rollout_res (h ! r) \<noteq> None"
      by (simp add: node_inv_def)
    from v s show "rollouts_counter (h ! r) \<noteq> []" by auto }
next
  assume a: "n < length t \<and> sum_list (map snd (rollouts_counter (t ! n))) = visits (t ! n)"
  then show "sum_list (map snd (rollouts_counter (Update F t n x ! n))) = visits (Update F t n x ! n)"
    and "1 \<le> visits (Update F t n x ! n)" and "last_rollout_res (Update F t n x ! n) = Some x"
    by (simp_all add: Update_nth sum_counter_incr)
qed

theorem visits_match_outcome_counts_witness:
  "UCT_tree exact nim (2, 2) 3 (\<lambda>c. Inr 0) 0 (\<lambda>i. 0) = Some (Inr (nim_tree3, 3)) \<and>
   reachable nim_tree3 2 \<and> (2::nat) < length nim_tree3 \<and>
   sum_list (map snd (rollouts_counter (nim_tree3 ! 2))) = 2 \<and> visits (nim_tree3 ! 2) = 2 \<and>
   last_rollout_res (nim_tree3 ! 2) = Some 1 \<and>
   sum_list (map snd (rollouts_counter (Update ieee nim_tree3 2 0 ! 2))) = 3 \<and>
   visits (Update ieee nim_tree3 2 0 ! 2) = 3 \<and>
   last_rollout_res (Update ieee nim_tree3 2 0 ! 2) = Some 0 \<and>
   UCT_tree ieee nim (2, 2) 2 (\<lambda>c. Inr 0) 0 (\<lambda>i. 0) = Some (Inr (nim_tree2, 3)) \<and>
   reachable nim_tree2 2 \<and> sum_list (map snd (rollouts_counter (nim_tree2 ! 2))) = 1 \<and>
   visits (nim_tree2 ! 2) = 1"
proof -
  note t = visits_match_outcome_counts
    [of exact nim "(2, 2)" 3 "\<lambda>c. Inr 0" 0 "\<lambda>i. 0" nim_tree3 3 2 nim_tree3 0]
  note u = visits_match_outcome_counts
    [of ieee nim "(2, 2)" 2 "\<lambda>c. Inr 0" 0 "\<lambda>i. 0" nim_tree2 3 2 nim_tree3 0]
  have "2 \<in> set (childNodes (nim_tree3 ! 0))" by (simp add: nim_tree3_def)
  with reachable_root[of nim_tree3] have re: "reachable nim_tree3 2" by (rule reachable_child)
  have "2 \<in> set (childNodes (nim_tree2 ! 0))" by (simp add: nim_tree2_def)
  with reachable_root[of nim_tree2] have re2: "reachable nim_tree2 2" by (rule reachable_child)
  have f: "(2::nat) < length nim_tree3" "visits (nim_tree3 ! 2) = 2"
    "last_rollout_res (nim_tree3 ! 2) = Some 1" "visits (nim_tree2 ! 2) = 1"
    by (simp_all add: nim_tree3_def nim_tree2_def)
  from t[THEN conjunct1, THEN mp, OF nim_run3, rule_format, OF re] f(2)
  have s: "sum_list (map snd (rollouts_counter (nim_tree3 ! 2))) = 2" by simp
  from u[THEN conjunct1, THEN mp, OF nim_run2, rule_format, OF re2] f(4)
  have s2: "sum_list (map snd (rollouts_counter (nim_tree2 ! 2))) = 1" by simp
  from u[THEN conjunct2, THEN mp, OF conjI[OF f(1)]] s f(2)
  have "sum_list (map snd (rollouts_counter (Update ieee nim_tree3 2 0 ! 2)))
          = visits (Update ieee nim_tree3 2 0 ! 2)"
    "last_rollout_res (Update ieee nim_tree3 2 0 ! 2) = Some 0" by simp_all
  moreover have "visits (Update ieee nim_tree3 2 0 ! 2) = 3"
    using f(1,2) by (simp add: Update_visits)
  ultimately show ?thesis using nim_run3 nim_run2 re re2 f s s2 by simp
qed

end
